theory Spec2Isabelle
  imports Main "HOL-Library.Sublist"
begin

section \<open>Normalizer: keyword classification (BaseScraper.categorizeArticle)\<close>

text \<open>
  JavaScript strings are modelled as lists of code units (\<open>string\<close>).  The built-in
  \<open>String.prototype.toLowerCase\<close> is not part of the repository; it is a parameter of the
  model, so that every statement below holds for whatever case mapping the runtime applies.
  \<open>ascii_lower\<close> is the instance used for concrete evaluation.
\<close>

type_synonym jsstring = string

fun starts_with :: "jsstring \<Rightarrow> jsstring \<Rightarrow> bool" where
  "starts_with [] s = True"
| "starts_with (a # w) [] = False"
| "starts_with (a # w) (b # s) = (a = b \<and> starts_with w s)"

text \<open>\<open>occurs_in w s\<close>: the literal \<open>w\<close> occurs somewhere in \<open>s\<close> (an unanchored match).\<close>

fun occurs_in :: "jsstring \<Rightarrow> jsstring \<Rightarrow> bool" where
  "occurs_in w [] = (w = [])"
| "occurs_in w (b # s) = (starts_with w (b # s) \<or> occurs_in w s)"

text \<open>\<open>/w1|w2|...|wn/.test(text)\<close> for literal alternatives.\<close>

definition regex_test :: "jsstring list \<Rightarrow> jsstring \<Rightarrow> bool" where
  "regex_test alts text = list_ex (\<lambda>w. occurs_in w text) alts"

definition weather_terms :: "jsstring list" where
  "weather_terms = [''weather'', ''storm'', ''hurricane'', ''flood'', ''tornado'', ''forecast'']"

definition politics_terms :: "jsstring list" where
  "politics_terms =
     [''election'', ''council'', ''mayor'', ''government'', ''vote'', ''policy'', ''bill'']"

definition sports_terms :: "jsstring list" where
  "sports_terms =
     [''football'', ''basketball'', ''baseball'', ''sports'', ''game'', ''team'', ''player'']"

definition education_terms :: "jsstring list" where
  "education_terms =
     [''school'', ''education'', ''student'', ''teacher'', ''university'', ''college'']"

definition tourism_terms :: "jsstring list" where
  "tourism_terms = [''beach'', ''tourism'', ''visitor'', ''hotel'', ''resort'', ''festival'']"

definition development_terms :: "jsstring list" where
  "development_terms =
     [''development'', ''construction'', ''zoning'', ''building'', ''property'']"

definition categorizeArticle :: "(jsstring \<Rightarrow> jsstring) \<Rightarrow> jsstring \<Rightarrow> jsstring \<Rightarrow> jsstring" where
  "categorizeArticle toLowerCase title excerpt =
     (let text = toLowerCase (title @ '' '' @ excerpt) in
      if regex_test weather_terms text then ''weather''
      else if regex_test politics_terms text then ''politics''
      else if regex_test sports_terms text then ''sports''
      else if regex_test education_terms text then ''education''
      else if regex_test tourism_terms text then ''tourism''
      else if regex_test development_terms text then ''development''
      else ''local'')"

text \<open>Lower-casing of the 26 ASCII capitals; every other code unit is left alone.\<close>

definition ascii_lower_char :: "char \<Rightarrow> char" where
  "ascii_lower_char c =
     (let n = (of_char c :: nat) in if 65 \<le> n \<and> n \<le> 90 then char_of (n + 32) else c)"

definition ascii_lower :: "jsstring \<Rightarrow> jsstring" where
  "ascii_lower s = map ascii_lower_char s"

subsection \<open>The rule table as the specification words it\<close>

text \<open>
  The specification describes classification as an ordered list of keyword rules, scanned in
  precedence order, the first rule that matches giving the category and \<open>local\<close> the default.
  \<open>classify_by_precedence\<close> is that description; it is compared with the code's cascade.
\<close>

definition category_rules :: "(jsstring list \<times> jsstring) list" where
  "category_rules =
     [(weather_terms, ''weather''), (politics_terms, ''politics''), (sports_terms, ''sports''),
      (education_terms, ''education''), (tourism_terms, ''tourism''),
      (development_terms, ''development'')]"

fun first_match :: "(jsstring list \<times> jsstring) list \<Rightarrow> jsstring \<Rightarrow> jsstring" where
  "first_match [] text = ''local''"
| "first_match ((alts, cat) # rules) text =
     (if regex_test alts text then cat else first_match rules text)"

definition classify_by_precedence :: "jsstring \<Rightarrow> jsstring" where
  "classify_by_precedence text = first_match category_rules text"

definition categories :: "jsstring list" where
  "categories =
     [''weather'', ''politics'', ''sports'', ''education'', ''tourism'', ''development'',
      ''local'']"

section \<open>The store: tables articles, tags and article_tags\<close>

text \<open>
  The tables are lists of rows in insertion order.  A column of type \<open>VARCHAR(n)\<close> accepts a
  value of at most \<open>n\<close> characters as it is; a longer value is an error unless everything
  beyond the first \<open>n\<close> characters is blank, in which case the blanks are cut off.
  \<open>NULL\<close> (a JavaScript \<open>undefined\<close> or \<open>null\<close> parameter) is \<open>None\<close>.  Timestamps are
  natural numbers; \<open>now\<close> is the value of \<open>NOW()\<close> for the statement.
\<close>

datatype db_error =
    ValueTooLong nat
  | NotNullViolation jsstring
  | ForeignKeyViolation jsstring

definition varchar :: "nat \<Rightarrow> jsstring \<Rightarrow> db_error + jsstring" where
  "varchar n s =
     (if length s \<le> n then Inr s
      else if list_all (\<lambda>c. c = CHR '' '') (drop n s) then Inr (take n s)
      else Inl (ValueTooLong n))"

definition varchar_null :: "nat \<Rightarrow> jsstring option \<Rightarrow> db_error + jsstring option" where
  "varchar_null n v =
     (case v of None \<Rightarrow> Inr None
      | Some s \<Rightarrow> (case varchar n s of Inl e \<Rightarrow> Inl e | Inr s' \<Rightarrow> Inr (Some s')))"

record article_data =
  source_id :: "nat option"
  title :: "jsstring option"
  excerpt :: "jsstring option"
  content :: "jsstring option"
  url :: "jsstring option"
  author :: "jsstring option"
  category :: "jsstring option"
  content_type :: "jsstring option"
  platform :: "jsstring option"
  image_url :: "jsstring option"
  published_at :: "nat option"

record article = article_data +
  row_id :: nat
  scraped_at :: nat
  created_at :: nat
  updated_at :: nat

record tag =
  tag_id :: nat
  tag_name :: jsstring
  tag_type :: jsstring
  tag_count :: nat
  tag_created_at :: nat

record store =
  sources :: "nat list"
  articles :: "article list"
  articles_id_seq :: nat
  tags :: "tag list"
  tags_id_seq :: nat
  article_tags :: "(nat \<times> nat) list"

text \<open>Sequencing of steps that may fail: the first error ends the statement.\<close>

definition and_then :: "db_error + 'a \<Rightarrow> ('a \<Rightarrow> db_error + 'b) \<Rightarrow> db_error + 'b" where
  "and_then r f = (case r of Inl e \<Rightarrow> Inl e | Inr x \<Rightarrow> f x)"

text \<open>The values of an \<open>INSERT INTO articles\<close> after assignment to the column types.\<close>

definition coerce_article :: "article_data \<Rightarrow> db_error + article_data" where
  "coerce_article d =
     and_then (varchar_null 500 (title d)) (\<lambda>t.
     and_then (varchar_null 1000 (url d)) (\<lambda>u.
     and_then (varchar_null 200 (author d)) (\<lambda>a.
     and_then (varchar_null 50 (category d)) (\<lambda>c.
     and_then (varchar_null 20 (content_type d)) (\<lambda>ct.
     and_then (varchar_null 50 (platform d)) (\<lambda>p.
     and_then (varchar_null 1000 (image_url d)) (\<lambda>i.
     Inr (d\<lparr>title := t, url := u, author := a, category := c, content_type := ct,
             platform := p, image_url := i\<rparr>))))))))"

text \<open>The \<open>NOT NULL\<close> columns of \<open>articles\<close> that the statement supplies.\<close>

definition not_null_article :: "article_data \<Rightarrow> db_error option" where
  "not_null_article v =
     (if title v = None then Some (NotNullViolation ''title'')
      else if url v = None then Some (NotNullViolation ''url'')
      else if content_type v = None then Some (NotNullViolation ''content_type'')
      else None)"

text \<open>\<open>source_id INTEGER REFERENCES sources(id)\<close>, checked when a row is inserted.\<close>

definition references_source :: "nat option \<Rightarrow> store \<Rightarrow> db_error option" where
  "references_source sid st =
     (case sid of None \<Rightarrow> None
      | Some s \<Rightarrow> if s \<in> set (sources st) then None
                  else Some (ForeignKeyViolation ''source_id''))"

text \<open>
  \<open>Article.create\<close>: \<open>INSERT INTO articles (...) VALUES (...) ON CONFLICT (url) DO UPDATE SET
  title = EXCLUDED.title, excerpt = EXCLUDED.excerpt, content = EXCLUDED.content,
  updated_at = NOW() RETURNING *\<close>.  The proposed row is coerced and checked first; a row with
  the same url is then updated in place, otherwise the row is appended with a fresh id and the
  three timestamp defaults, provided its source exists.  The id sequence advances on every
  attempt that reaches the conflict check.  \<open>Inl\<close> is the rejected promise; the tables are then
  as before.
\<close>

definition create :: "nat \<Rightarrow> article_data \<Rightarrow> store \<Rightarrow> db_error + (article \<times> store)" where
  "create now articleData st =
     and_then (coerce_article articleData) (\<lambda>v.
       (case not_null_article v of
          Some e \<Rightarrow> Inl e
        | None \<Rightarrow>
           (case find (\<lambda>r. url r = url v) (articles st) of
              Some old \<Rightarrow>
                (let row = old\<lparr>title := title v, excerpt := excerpt v, content := content v,
                               updated_at := now\<rparr>
                 in Inr (row,
                      st\<lparr>articles := map (\<lambda>r. if url r = url v then row else r) (articles st),
                         articles_id_seq := articles_id_seq st + 1\<rparr>))
            | None \<Rightarrow>
                (case references_source (source_id v) st of
                   Some e \<Rightarrow> Inl e
                 | None \<Rightarrow>
                    (let row = \<lparr>source_id = source_id v, title = title v, excerpt = excerpt v,
                                content = content v, url = url v, author = author v,
                                category = category v, content_type = content_type v,
                                platform = platform v, image_url = image_url v,
                                published_at = published_at v, row_id = articles_id_seq st,
                                scraped_at = now, created_at = now, updated_at = now\<rparr>
                     in Inr (row, st\<lparr>articles := articles st @ [row],
                                     articles_id_seq := articles_id_seq st + 1\<rparr>))))))"

text \<open>\<open>Article.findByUrl\<close>: \<open>SELECT * FROM articles WHERE url = $1\<close>, first row or null.\<close>

definition findByUrl :: "jsstring option \<Rightarrow> store \<Rightarrow> article option" where
  "findByUrl u st = (case u of None \<Rightarrow> None | Some _ \<Rightarrow> find (\<lambda>r. url r = u) (articles st))"

text \<open>
  \<open>INSERT INTO tags (name, type) VALUES ($1, $2) ON CONFLICT (name) DO UPDATE SET
  name = EXCLUDED.name RETURNING id\<close>: the id of the tag of that name, which is appended with
  usage count 0 when it is not there yet.
\<close>

definition upsert_tag :: "nat \<Rightarrow> jsstring \<Rightarrow> jsstring \<Rightarrow> store \<Rightarrow> db_error + (nat \<times> store)" where
  "upsert_tag now nm ty st =
     and_then (varchar 100 nm) (\<lambda>n.
     and_then (varchar 20 ty) (\<lambda>t.
       (case find (\<lambda>r. tag_name r = n) (tags st) of
          Some old \<Rightarrow> Inr (tag_id old, st\<lparr>tags_id_seq := tags_id_seq st + 1\<rparr>)
        | None \<Rightarrow>
            Inr (tags_id_seq st,
                 st\<lparr>tags := tags st @ [\<lparr>tag_id = tags_id_seq st, tag_name = n, tag_type = t,
                                         tag_count = 0, tag_created_at = now\<rparr>],
                    tags_id_seq := tags_id_seq st + 1\<rparr>))))"

text \<open>
  The trigger \<open>increment_tag_count_trigger AFTER INSERT ON article_tags\<close>:
  \<open>UPDATE tags SET count = count + 1 WHERE id = NEW.tag_id\<close>.
\<close>

definition increment_tag_count :: "nat \<Rightarrow> store \<Rightarrow> store" where
  "increment_tag_count tid st =
     st\<lparr>tags := map (\<lambda>r. if tag_id r = tid then r\<lparr>tag_count := tag_count r + 1\<rparr> else r)
                   (tags st)\<rparr>"

text \<open>
  \<open>INSERT INTO article_tags (article_id, tag_id) VALUES ($1, $2) ON CONFLICT DO NOTHING\<close>:
  nothing happens when the pair is there; otherwise both references must exist, the pair is
  inserted and the trigger fires for it.
\<close>

definition link_tag :: "nat \<Rightarrow> nat \<Rightarrow> store \<Rightarrow> db_error + store" where
  "link_tag articleId tagId st =
     (if (articleId, tagId) \<in> set (article_tags st) then Inr st
      else if articleId \<notin> set (map row_id (articles st))
        then Inl (ForeignKeyViolation ''article_id'')
      else if tagId \<notin> set (map tag_id (tags st))
        then Inl (ForeignKeyViolation ''tag_id'')
      else Inr (increment_tag_count tagId
                  (st\<lparr>article_tags := article_tags st @ [(articleId, tagId)]\<rparr>)))"

text \<open>The body of the \<open>for (const tagName of tagNames)\<close> loop, up to the first error.\<close>

fun addTags_loop :: "nat \<Rightarrow> nat \<Rightarrow> jsstring list \<Rightarrow> store \<Rightarrow> db_error option \<times> store" where
  "addTags_loop now articleId [] st = (None, st)"
| "addTags_loop now articleId (tagName # tagNames) st =
     (case upsert_tag now tagName
             (if starts_with ''#'' tagName then ''hashtag'' else ''general'') st of
        Inl e \<Rightarrow> (Some e, st)
      | Inr (tagId, st1) \<Rightarrow>
          (case link_tag articleId tagId st1 of
             Inl e \<Rightarrow> (Some e, st1)
           | Inr st2 \<Rightarrow> addTags_loop now articleId tagNames st2))"

text \<open>
  \<open>Article.addTags\<close>: the loop inside \<open>BEGIN\<close> ... \<open>COMMIT\<close>.  On an error the transaction is
  rolled back, so the rows are those before the call (a sequence does not roll back), and the
  error is thrown again: the first component is \<open>Some\<close> error.
\<close>

definition addTags :: "nat \<Rightarrow> nat \<Rightarrow> jsstring list \<Rightarrow> store \<Rightarrow> db_error option \<times> store" where
  "addTags now articleId tagNames st =
     (case addTags_loop now articleId tagNames st of
        (None, st') \<Rightarrow> (None, st')
      | (Some e, st') \<Rightarrow> (Some e, st\<lparr>tags_id_seq := tags_id_seq st'\<rparr>))"

text \<open>The usage counter of the tag with a given id (0 when there is no such tag).\<close>

definition usage_count :: "store \<Rightarrow> nat \<Rightarrow> nat" where
  "usage_count st tid =
     (case find (\<lambda>r. tag_id r = tid) (tags st) of Some r \<Rightarrow> tag_count r | None \<Rightarrow> 0)"

definition empty_store :: "nat list \<Rightarrow> store" where
  "empty_store srcs =
     \<lparr>sources = srcs, articles = [], articles_id_seq = 1, tags = [], tags_id_seq = 1,
      article_tags = []\<rparr>"

section \<open>Scrapers: fetching and building article data\<close>

text \<open>
  What the JavaScript runtime and the libraries contribute is a parameter of the model:
  the case mappings, the \<open>URL\<close> and \<open>Date\<close> constructors.  \<open>None\<close> from \<open>resolveUrl\<close> is a
  \<open>URL\<close> constructor that throws; \<open>InvalidDate\<close> is a \<open>Date\<close> whose time value is NaN.
\<close>

datatype js_date = Date nat | InvalidDate

record runtime =
  toLowerCase :: "jsstring \<Rightarrow> jsstring"
  canonicalize :: "char \<Rightarrow> char"
  resolveUrl :: "jsstring \<Rightarrow> jsstring \<Rightarrow> jsstring option"
  parseDate :: "jsstring \<Rightarrow> js_date"

datatype js_error =
    TypeError jsstring
  | RequestError jsstring
  | QueryError db_error
  | InvalidTimestamp

text \<open>A value is truthy when it is a non-empty string; \<open>a || b\<close> on such values.\<close>

definition truthy :: "jsstring option \<Rightarrow> bool" where
  "truthy v = (case v of None \<Rightarrow> False | Some s \<Rightarrow> s \<noteq> [])"

definition js_or :: "jsstring option \<Rightarrow> jsstring option \<Rightarrow> jsstring option" where
  "js_or a b = (if truthy a then a else b)"

text \<open>\<open>a || b\<close> where \<open>b\<close> is a string.\<close>

definition or_else :: "jsstring option \<Rightarrow> jsstring \<Rightarrow> jsstring" where
  "or_else a b = (case a of None \<Rightarrow> b | Some s \<Rightarrow> if s \<noteq> [] then s else b)"

text \<open>A value inside a template literal: \<open>undefined\<close> prints as that word.\<close>

definition template :: "jsstring option \<Rightarrow> jsstring" where
  "template v = (case v of None \<Rightarrow> ''undefined'' | Some s \<Rightarrow> s)"

text \<open>\<open>process.env\<close>: the result of \<open>parseInt\<close> on the delay (\<open>None\<close> is NaN), the agent.\<close>

record environment =
  SCRAPE_DELAY_MS :: "int option"
  USER_AGENT :: "jsstring option"

record source_config =
  cfg_url :: jsstring
  cfg_id :: "nat option"
  cfg_scraper_type :: jsstring
  cfg_rss_url :: "jsstring option"

record scraper =
  sourceName :: jsstring
  sourceUrl :: jsstring
  sourceId :: "nat option"
  scraperType :: jsstring
  delay :: int
  userAgent :: jsstring

definition BaseScraper :: "environment \<Rightarrow> jsstring \<Rightarrow> source_config \<Rightarrow> scraper" where
  "BaseScraper env name sourceConfig =
     \<lparr>sourceName = name, sourceUrl = cfg_url sourceConfig, sourceId = cfg_id sourceConfig,
      scraperType = cfg_scraper_type sourceConfig,
      delay = (case SCRAPE_DELAY_MS env of None \<Rightarrow> 2000
               | Some d \<Rightarrow> if d = 0 then 2000 else d),
      userAgent = or_else (USER_AGENT env)
                    ''BaldwinNewsBot/1.0 (+https://baldwincountynews.com/about)''\<rparr>"

text \<open>
  The observable actions of a fetch: a GET request with its headers and its timeout in
  milliseconds, a sleep, and a request that the feed parser library issues by itself.
\<close>

datatype io =
    HttpGet jsstring "(jsstring \<times> jsstring) list" nat
  | Sleep int
  | ParseURL jsstring

definition request_headers :: "scraper \<Rightarrow> (jsstring \<times> jsstring) list" where
  "request_headers s =
     [(''User-Agent'', userAgent s),
      (''Accept'', ''text/html,application/xhtml+xml,application/xml;q=0.9,*/*;q=0.8''),
      (''Accept-Language'', ''en-US,en;q=0.5''),
      (''Accept-Encoding'', ''gzip, deflate''),
      (''DNT'', ''1''),
      (''Connection'', ''keep-alive''),
      (''Upgrade-Insecure-Requests'', ''1'')]"

text \<open>
  \<open>BaseScraper.fetchHTML\<close>.  \<open>net u\<close> is what the network answers to a request for \<open>u\<close>:
  the response data, or the message of the error for a failure, a timeout or a status outside
  2xx.  The sleep follows a successful response only; an error is thrown again at once.
\<close>

definition fetchHTML ::
  "(jsstring \<Rightarrow> jsstring + jsstring) \<Rightarrow> scraper \<Rightarrow> jsstring \<Rightarrow> io list \<times> (js_error + jsstring)" where
  "fetchHTML net s u =
     (case net u of
        Inr data \<Rightarrow> ([HttpGet u (request_headers s) 30000, Sleep (delay s)], Inr data)
      | Inl message \<Rightarrow> ([HttpGet u (request_headers s) 30000], Inl (RequestError message)))"

text \<open>\<open>new NitterScraper(hashtag)\<close>: the search page of the first instance of the list.\<close>

definition nitterInstances :: "jsstring list" where
  "nitterInstances =
     [''https://nitter.net'', ''https://nitter.1d4.us'', ''https://nitter.kavin.rocks'',
      ''https://nitter.unixfox.eu'']"

definition nitter_config :: "jsstring \<Rightarrow> source_config" where
  "nitter_config hashtag =
     \<lparr>cfg_url = hd nitterInstances @ ''/search?f=tweets&q=%23'' @ hashtag, cfg_id = None,
      cfg_scraper_type = ''cheerio'', cfg_rss_url = None\<rparr>"

definition NitterScraper :: "environment \<Rightarrow> jsstring \<Rightarrow> scraper" where
  "NitterScraper env hashtag = BaseScraper env (''Nitter-'' @ hashtag) (nitter_config hashtag)"

text \<open>
  A list of io actions goes through the Fetcher when it is one GET carrying the scraper's
  user agent with a timeout of 30000 ms, followed by a sleep of the scraper's delay exactly
  when the fetch returned a document.
\<close>

definition through_fetcher :: "scraper \<Rightarrow> io list \<Rightarrow> bool \<Rightarrow> bool" where
  "through_fetcher s acts returned =
     (case acts of
        [HttpGet u hs t] \<Rightarrow>
          \<not> returned \<and> map_of hs ''User-Agent'' = Some (userAgent s) \<and> t = 30000
      | [HttpGet u hs t, Sleep d] \<Rightarrow>
          returned \<and> map_of hs ''User-Agent'' = Some (userAgent s) \<and> t = 30000 \<and> d = delay s
      | _ \<Rightarrow> False)"

subsection \<open>The article data each scraper builds\<close>

text \<open>
  The object literal \<open>articleData\<close> handed to \<open>saveArticle\<close>.  \<open>None\<close> in \<open>ad_content\<close>,
  \<open>ad_content_type\<close> and \<open>ad_platform\<close> is a key the literal does not have; elsewhere it is
  \<open>null\<close> or \<open>undefined\<close>.
\<close>

record articleData =
  ad_title :: jsstring
  ad_excerpt :: jsstring
  ad_content :: "jsstring option"
  ad_url :: "jsstring option"
  ad_author :: "jsstring option"
  ad_category :: jsstring
  ad_content_type :: "jsstring option"
  ad_platform :: "jsstring option"
  ad_image_url :: "jsstring option"
  ad_published_at :: js_date
  ad_tags :: "jsstring list"

text \<open>\<open>str.substring(0, n)\<close> for a natural number \<open>n\<close>.\<close>

definition substring0 :: "nat \<Rightarrow> jsstring \<Rightarrow> jsstring" where
  "substring0 n str = take n str"

text \<open>The global match of \<open>/#[\w]+/g\<close>: each \<open>#\<close> followed by its longest run of word characters.\<close>

definition word_char :: "char \<Rightarrow> bool" where
  "word_char c =
     (let n = (of_char c :: nat) in
      (48 \<le> n \<and> n \<le> 57) \<or> (65 \<le> n \<and> n \<le> 90) \<or> n = 95 \<or> (97 \<le> n \<and> n \<le> 122))"

function match_hashtags :: "jsstring \<Rightarrow> jsstring list" where
  "match_hashtags [] = []"
| "match_hashtags (c # cs) =
     (if c = CHR ''#'' \<and> takeWhile word_char cs \<noteq> []
      then (c # takeWhile word_char cs) # match_hashtags (dropWhile word_char cs)
      else match_hashtags cs)"
  by pat_completeness auto
termination
  by (relation "measure length") (auto simp: length_dropWhile_le less_Suc_eq_le)

text \<open>The elements of a \<open>Set\<close> built from a list, in order of first insertion.\<close>

fun set_order :: "jsstring list \<Rightarrow> jsstring list" where
  "set_order [] = []"
| "set_order (x # xs) = x # filter (\<lambda>y. y \<noteq> x) (set_order xs)"

text \<open>\<open>new RegExp(loc, 'i').test(text)\<close> for a literal \<open>loc\<close>.\<close>

definition regex_test_i :: "(char \<Rightarrow> char) \<Rightarrow> jsstring \<Rightarrow> jsstring \<Rightarrow> bool" where
  "regex_test_i canon loc text = occurs_in (map canon loc) (map canon text)"

definition locations :: "jsstring list" where
  "locations =
     [''Orange Beach'', ''Gulf Shores'', ''Foley'', ''Baldwin County'', ''Mobile'', ''Fairhope'',
      ''Daphne'']"

definition extractTags :: "runtime \<Rightarrow> jsstring \<Rightarrow> jsstring \<Rightarrow> jsstring list" where
  "extractTags rt ttl exc =
     (let text = ttl @ '' '' @ exc in
      set_order (filter (\<lambda>loc. regex_test_i (canonicalize rt) loc text) locations
                 @ match_hashtags text))"

text \<open>An item as the feed parser delivers it; a field the feed lacks is \<open>None\<close>.\<close>

record rss_item =
  item_title :: "jsstring option"
  item_link :: "jsstring option"
  item_contentSnippet :: "jsstring option"
  item_summary :: "jsstring option"
  item_description :: "jsstring option"
  item_contentEncoded :: "jsstring option"
  item_content :: "jsstring option"
  item_creator :: "jsstring option"
  item_author :: "jsstring option"
  item_pubDate :: "jsstring option"
  item_enclosure_url :: "jsstring option"
  item_mediaContent :: "jsstring option option"
  item_mediaThumbnail :: "jsstring option option"
  item_categories :: "jsstring list option"

text \<open>
  \<open>RSSScraper.processItem\<close> from \<open>// Extract article data\<close> to the \<open>articleData\<close> literal.
  \<open>rss_excerpt\<close> and \<open>rss_content\<close> are the constants \<open>excerpt\<close> and \<open>content\<close> of the method;
  \<open>title.substring\<close> on a missing title is the \<open>TypeError\<close>.
\<close>

definition rss_excerpt :: "rss_item \<Rightarrow> jsstring" where
  "rss_excerpt item =
     or_else (js_or (js_or (item_contentSnippet item) (item_summary item))
                (item_description item)) ''''"

definition rss_content :: "rss_item \<Rightarrow> jsstring" where
  "rss_content item =
     or_else (js_or (item_contentEncoded item) (item_content item)) (rss_excerpt item)"

definition rss_articleData :: "runtime \<Rightarrow> nat \<Rightarrow> rss_item \<Rightarrow> js_error + articleData" where
  "rss_articleData rt now item =
     (let author' = js_or (js_or (item_creator item) (item_author item)) None;
          published = (case item_pubDate item of
                         None \<Rightarrow> Date now
                       | Some d \<Rightarrow> if d \<noteq> [] then parseDate rt d else Date now);
          image = (if truthy (item_enclosure_url item) then item_enclosure_url item
                   else (case item_mediaContent item of
                           Some u \<Rightarrow> u
                         | None \<Rightarrow> (case item_mediaThumbnail item of Some u \<Rightarrow> u | None \<Rightarrow> None)));
          category' = categorizeArticle (toLowerCase rt) (template (item_title item))
                        (rss_excerpt item);
          tags' = extractTags rt (template (item_title item)) (rss_excerpt item)
                  @ (case item_categories item of None \<Rightarrow> [] | Some cats \<Rightarrow> cats)
      in case item_title item of
           None \<Rightarrow> Inl (TypeError ''title.substring'')
         | Some ttl \<Rightarrow>
             Inr \<lparr>ad_title = substring0 500 ttl,
                  ad_excerpt = substring0 1000 (rss_excerpt item),
                  ad_content = Some (rss_content item), ad_url = item_link item,
                  ad_author = author', ad_category = category', ad_content_type = None,
                  ad_platform = None, ad_image_url = image, ad_published_at = published,
                  ad_tags = tags'\<rparr>)"

text \<open>
  An article block of a page as the selectors deliver it: the cleaned text of the title,
  excerpt and author elements, and the attributes read from the link, date and image.
\<close>

record page_block =
  block_title :: jsstring
  block_href :: "jsstring option"
  block_excerpt :: jsstring
  block_datetime :: "jsstring option"
  block_date_text :: jsstring
  block_author :: jsstring
  block_img_src :: "jsstring option"
  block_img_data_src :: "jsstring option"

definition getAbsoluteUrl :: "runtime \<Rightarrow> jsstring \<Rightarrow> jsstring \<Rightarrow> jsstring" where
  "getAbsoluteUrl rt relativeUrl baseUrl =
     (case resolveUrl rt relativeUrl baseUrl of Some href \<Rightarrow> href | None \<Rightarrow> relativeUrl)"

text \<open>
  \<open>CheerioScraper.processArticleElement\<close> without the look-up in the store: \<open>None\<close> is a
  skipped block; the url is the resolved one that the look-up is made with.
\<close>

definition cheerio_articleData :: "runtime \<Rightarrow> nat \<Rightarrow> scraper \<Rightarrow> page_block \<Rightarrow> articleData option" where
  "cheerio_articleData rt now s b =
     (if block_title b = [] \<or> length (block_title b) < 10 then None
      else (case block_href b of
              None \<Rightarrow> None
            | Some href \<Rightarrow>
                if href = [] then None
                else
                  (let dateStr = or_else (block_datetime b) (block_date_text b);
                       image = js_or (block_img_src b) (block_img_data_src b)
                   in Some
                     \<lparr>ad_title = substring0 500 (block_title b),
                      ad_excerpt = substring0 1000 (block_excerpt b),
                      ad_content = None,
                      ad_url = Some (getAbsoluteUrl rt href (sourceUrl s)),
                      ad_author = js_or (Some (block_author b)) None,
                      ad_category =
                        categorizeArticle (toLowerCase rt) (block_title b) (block_excerpt b),
                      ad_content_type = None, ad_platform = None,
                      ad_image_url =
                        (case image of
                           None \<Rightarrow> None
                         | Some src \<Rightarrow>
                             if src \<noteq> [] then Some (getAbsoluteUrl rt src (sourceUrl s))
                             else Some src),
                      ad_published_at = (if dateStr \<noteq> [] then parseDate rt dateStr else Date now),
                      ad_tags = extractTags rt (block_title b) (block_excerpt b)\<rparr>)))"

text \<open>A result block of the mirror's search page.\<close>

record tweet_block =
  tweet_content :: jsstring
  tweet_username :: jsstring
  tweet_href :: "jsstring option"
  tweet_date_title :: "jsstring option"
  tweet_image :: "jsstring option option"

text \<open>\<open>str.replace(pattern, replacement)\<close> for a non-empty literal pattern: the first occurrence.\<close>

fun replace_first :: "jsstring \<Rightarrow> jsstring \<Rightarrow> jsstring \<Rightarrow> jsstring" where
  "replace_first pat rep [] = []"
| "replace_first pat rep (c # cs) =
     (if starts_with pat (c # cs) then rep @ drop (length pat) (c # cs)
      else c # replace_first pat rep cs)"

text \<open>\<open>NitterScraper.processTweetElement\<close> without the look-up in the store.\<close>

definition nitter_articleData :: "runtime \<Rightarrow> nat \<Rightarrow> jsstring \<Rightarrow> tweet_block \<Rightarrow> articleData option" where
  "nitter_articleData rt now hashtag t =
     (let content' = tweet_content t in
      if content' = [] \<or> length content' < 5 then None
      else (case tweet_href t of
              None \<Rightarrow> None
            | Some href \<Rightarrow>
                if href = [] then None
                else
                  Some
                    \<lparr>ad_title = (if length content' > 100 then substring0 100 content' @ ''...''
                                 else content'),
                     ad_excerpt = content', ad_content = Some content',
                     ad_url = Some (''https://twitter.com'' @ replace_first ''/i/web'' '''' href),
                     ad_author = Some (or_else (Some (tweet_username t)) ''Unknown''),
                     ad_category = ''social'', ad_content_type = Some ''social'',
                     ad_platform = Some ''twitter'',
                     ad_image_url =
                       (case tweet_image t of
                          None \<Rightarrow> None
                        | Some None \<Rightarrow> None
                        | Some (Some src) \<Rightarrow>
                            if src \<noteq> [] \<and> starts_with ''/'' src
                            then Some (hd nitterInstances @ src) else Some src),
                     ad_published_at =
                       (case tweet_date_title t of
                          None \<Rightarrow> Date now
                        | Some d \<Rightarrow> if d \<noteq> [] then parseDate rt d else Date now),
                     ad_tags = set_order (match_hashtags content' @ [''#'' @ hashtag])\<rparr>))"

text \<open>
  \<open>BaseScraper.saveArticle\<close>: the argument of \<open>Article.create\<close> is
  \<open>{source_id, content_type: 'news', category: 'local', ...articleData}\<close>; the tags are attached
  when there are any.  A \<open>Date\<close> that is invalid does not reach a row: the statement fails.
\<close>

definition create_argument :: "scraper \<Rightarrow> articleData \<Rightarrow> nat \<Rightarrow> article_data" where
  "create_argument s ad published =
     \<lparr>source_id = sourceId s, title = Some (ad_title ad), excerpt = Some (ad_excerpt ad),
      content = ad_content ad, url = ad_url ad, author = ad_author ad,
      category = Some (ad_category ad),
      content_type = (case ad_content_type ad of None \<Rightarrow> Some ''news'' | Some ct \<Rightarrow> Some ct),
      platform = ad_platform ad, image_url = ad_image_url ad, published_at = Some published\<rparr>"

definition saveArticle :: "nat \<Rightarrow> scraper \<Rightarrow> articleData \<Rightarrow> store \<Rightarrow> (js_error + article) \<times> store" where
  "saveArticle now s ad st =
     (case ad_published_at ad of
        InvalidDate \<Rightarrow> (Inl InvalidTimestamp, st)
      | Date published \<Rightarrow>
          (case create now (create_argument s ad published) st of
             Inl e \<Rightarrow> (Inl (QueryError e), st)
           | Inr (row, st1) \<Rightarrow>
               if ad_tags ad \<noteq> [] then
                 (case addTags now (row_id row) (ad_tags ad) st1 of
                    (None, st2) \<Rightarrow> (Inr row, st2)
                  | (Some e, st2) \<Rightarrow> (Inl (QueryError e), st2))
               else (Inr row, st1)))"

text \<open>
  The three \<open>process...\<close> methods in full: skip what the store has under the url, build the
  data, save it.  The result is the saved row, \<open>None\<close> for a skipped item, or the error that the
  caller's \<open>try\<close> around the item catches.
\<close>

definition processItem ::
  "runtime \<Rightarrow> nat \<Rightarrow> scraper \<Rightarrow> rss_item \<Rightarrow> store \<Rightarrow> (js_error + article option) \<times> store" where
  "processItem rt now s item st =
     (if findByUrl (item_link item) st \<noteq> None then (Inr None, st)
      else (case rss_articleData rt now item of
              Inl e \<Rightarrow> (Inl e, st)
            | Inr ad \<Rightarrow>
                (case saveArticle now s ad st of
                   (Inl e, st') \<Rightarrow> (Inl e, st')
                 | (Inr row, st') \<Rightarrow> (Inr (Some row), st'))))"

definition processArticleElement ::
  "runtime \<Rightarrow> nat \<Rightarrow> scraper \<Rightarrow> page_block \<Rightarrow> store \<Rightarrow> (js_error + article option) \<times> store" where
  "processArticleElement rt now s b st =
     (case cheerio_articleData rt now s b of
        None \<Rightarrow> (Inr None, st)
      | Some ad \<Rightarrow>
          if findByUrl (ad_url ad) st \<noteq> None then (Inr None, st)
          else (case saveArticle now s ad st of
                  (Inl e, st') \<Rightarrow> (Inl e, st')
                | (Inr row, st') \<Rightarrow> (Inr (Some row), st')))"

definition processTweetElement ::
  "runtime \<Rightarrow> nat \<Rightarrow> scraper \<Rightarrow> jsstring \<Rightarrow> tweet_block \<Rightarrow> store
     \<Rightarrow> (js_error + article option) \<times> store" where
  "processTweetElement rt now s hashtag t st =
     (case nitter_articleData rt now hashtag t of
        None \<Rightarrow> (Inr None, st)
      | Some ad \<Rightarrow>
          if findByUrl (ad_url ad) st \<noteq> None then (Inr None, st)
          else (case saveArticle now s ad st of
                  (Inl e, st') \<Rightarrow> (Inl e, st')
                | (Inr row, st') \<Rightarrow> (Inr (Some row), st')))"

subsection \<open>The three \<open>scrape()\<close> methods\<close>

text \<open>
  The loop over the items of a document: an item that throws is logged and skipped, an item
  that gives \<open>null\<close> is skipped, a saved article is pushed.  \<open>clock i\<close> is the time at which the
  item at position \<open>i\<close> reaches the database.
\<close>

fun collect ::
  "(nat \<Rightarrow> 'i \<Rightarrow> store \<Rightarrow> (js_error + article option) \<times> store) \<Rightarrow> (nat \<Rightarrow> nat) \<Rightarrow> nat
     \<Rightarrow> 'i list \<Rightarrow> store \<Rightarrow> article list \<times> store" where
  "collect process clock i [] st = ([], st)"
| "collect process clock i (x # xs) st =
     (case process (clock i) x st of
        (Inr (Some row), st') \<Rightarrow>
          (case collect process clock (Suc i) xs st' of (rows, st'') \<Rightarrow> (row # rows, st''))
      | (Inr None, st') \<Rightarrow> collect process clock (Suc i) xs st'
      | (Inl e, st') \<Rightarrow> collect process clock (Suc i) xs st')"

text \<open>
  \<open>CheerioScraper.scrape\<close>: \<open>fetchHTML(this.sourceUrl)\<close>, then every block that the selector
  \<open>articleList\<close> finds in the parsed page (\<open>select\<close>).  The result is the io actions of the call,
  the saved articles or the error thrown again, and the store.
\<close>

definition cheerio_scrape ::
  "runtime \<Rightarrow> (jsstring \<Rightarrow> jsstring + jsstring) \<Rightarrow> (jsstring \<Rightarrow> page_block list) \<Rightarrow> (nat \<Rightarrow> nat)
     \<Rightarrow> scraper \<Rightarrow> store \<Rightarrow> io list \<times> (js_error + article list) \<times> store" where
  "cheerio_scrape rt net select clock s st =
     (case fetchHTML net s (sourceUrl s) of
        (acts, Inl e) \<Rightarrow> (acts, Inl e, st)
      | (acts, Inr html) \<Rightarrow>
          (case collect (\<lambda>now. processArticleElement rt now s) clock 0 (select html) st of
             (rows, st') \<Rightarrow> (acts, Inr rows, st')))"

text \<open>\<open>NitterScraper.scrape\<close>: the same with the elements \<open>.timeline-item\<close>.\<close>

definition nitter_scrape ::
  "runtime \<Rightarrow> (jsstring \<Rightarrow> jsstring + jsstring) \<Rightarrow> (jsstring \<Rightarrow> tweet_block list) \<Rightarrow> (nat \<Rightarrow> nat)
     \<Rightarrow> scraper \<Rightarrow> jsstring \<Rightarrow> store \<Rightarrow> io list \<times> (js_error + article list) \<times> store" where
  "nitter_scrape rt net select clock s hashtag st =
     (case fetchHTML net s (sourceUrl s) of
        (acts, Inl e) \<Rightarrow> (acts, Inl e, st)
      | (acts, Inr html) \<Rightarrow>
          (case collect (\<lambda>now. processTweetElement rt now s hashtag) clock 0 (select html) st of
             (rows, st') \<Rightarrow> (acts, Inr rows, st')))"

text \<open>
  \<open>RSSScraper.scrape\<close>: \<open>this.parser.parseURL(this.rssUrl)\<close>, the request being made inside the
  parser library, which gives the items of the feed (\<open>feed\<close>) or rejects.
\<close>

definition rssUrl :: "source_config \<Rightarrow> jsstring" where
  "rssUrl sourceConfig = or_else (cfg_rss_url sourceConfig) (cfg_url sourceConfig)"

definition rss_scrape ::
  "runtime \<Rightarrow> (jsstring \<Rightarrow> jsstring + rss_item list) \<Rightarrow> (nat \<Rightarrow> nat) \<Rightarrow> scraper \<Rightarrow> source_config
     \<Rightarrow> store \<Rightarrow> io list \<times> (js_error + article list) \<times> store" where
  "rss_scrape rt feed clock s sourceConfig st =
     (case feed (rssUrl sourceConfig) of
        Inl message \<Rightarrow> ([ParseURL (rssUrl sourceConfig)], Inl (RequestError message), st)
      | Inr items \<Rightarrow>
          (case collect (\<lambda>now. processItem rt now s) clock 0 items st of
             (rows, st') \<Rightarrow> ([ParseURL (rssUrl sourceConfig)], Inr rows, st')))"

text \<open>Whether a \<open>scrape()\<close> returned its articles.\<close>

definition returned :: "io list \<times> (js_error + article list) \<times> store \<Rightarrow> bool" where
  "returned r = (case fst (snd r) of Inl e \<Rightarrow> False | Inr rows \<Rightarrow> True)"

text \<open>
  The bounds as the specification states them for what reaches the store: title at most 500,
  excerpt and content at most 1000 characters.
\<close>

definition within_caps :: "articleData \<Rightarrow> bool" where
  "within_caps ad =
     (length (ad_title ad) \<le> 500 \<and> length (ad_excerpt ad) \<le> 1000
      \<and> (case ad_content ad of None \<Rightarrow> True | Some c \<Rightarrow> length c \<le> 1000))"

text \<open>Concrete inputs: a runtime restricted to ASCII, a feed item and a post with long bodies.\<close>

definition plain_runtime :: runtime where
  "plain_runtime =
     \<lparr>toLowerCase = ascii_lower, canonicalize = ascii_lower_char,
      resolveUrl = (\<lambda>relativeUrl baseUrl. Some relativeUrl),
      parseDate = (\<lambda>str. InvalidDate)\<rparr>"

definition long_item :: rss_item where
  "long_item =
     \<lparr>item_title = Some ''Council vote'', item_link = Some ''https://x.com/c'',
      item_contentSnippet = Some ''Short.'', item_summary = None, item_description = None,
      item_contentEncoded = Some (replicate 1001 (CHR ''a'')), item_content = None,
      item_creator = None, item_author = None, item_pubDate = None,
      item_enclosure_url = None, item_mediaContent = None, item_mediaThumbnail = None,
      item_categories = None\<rparr>"

definition long_tweet :: tweet_block where
  "long_tweet =
     \<lparr>tweet_content = replicate 1001 (CHR ''a''), tweet_username = ''@someone'',
      tweet_href = Some ''/someone/status/1'', tweet_date_title = None, tweet_image = None\<rparr>"

definition short_block :: page_block where
  "short_block =
     \<lparr>block_title = ''Storm warning issued for coast'', block_href = Some ''/news/1'',
      block_excerpt = ''A warning is in effect.'', block_datetime = None, block_date_text = '''',
      block_author = '''', block_img_src = None, block_img_data_src = None\<rparr>"

definition default_environment :: environment where
  "default_environment = \<lparr>SCRAPE_DELAY_MS = None, USER_AGENT = None\<rparr>"

definition feed_config :: source_config where
  "feed_config =
     \<lparr>cfg_url = ''https://www.al.com/news/mobile/baldwin/'', cfg_id = Some 4,
      cfg_scraper_type = ''rss'', cfg_rss_url = None\<rparr>"

definition feed_scraper :: scraper where
  "feed_scraper = BaseScraper default_environment ''AL.com Baldwin'' feed_config"

definition page_config :: source_config where
  "page_config =
     \<lparr>cfg_url = ''https://www.baldwintimes.com'', cfg_id = Some 1,
      cfg_scraper_type = ''cheerio'', cfg_rss_url = None\<rparr>"

definition page_scraper :: scraper where
  "page_scraper = BaseScraper default_environment ''Baldwin Times'' page_config"

definition answering :: "jsstring \<Rightarrow> jsstring + jsstring" where
  "answering u = Inr ''<html></html>''"

definition no_blocks :: "jsstring \<Rightarrow> page_block list" where
  "no_blocks html = []"

definition empty_feed :: "jsstring \<Rightarrow> jsstring + rss_item list" where
  "empty_feed u = Inr []"

definition at_noon :: "nat \<Rightarrow> nat" where
  "at_noon i = 12"

section \<open>Scrape orchestration (ScraperManager)\<close>

text \<open>
  The object \<open>results\<close> of a run, and an entry of its \<open>details\<close>.  The key \<open>articles\<close> of the
  JavaScript object is the field \<open>found\<close>.
\<close>

record detail =
  detail_source :: jsstring
  detail_status :: jsstring
  detail_articles :: nat
  detail_duration :: nat
  detail_error :: "jsstring option"

record results =
  total :: nat
  successful :: nat
  failed :: nat
  found :: nat
  details :: "detail list"

text \<open>The statements the manager sends to the database, in the order in which they succeed.\<close>

datatype query =
    UpdateSourceTimestamp nat jsstring
  | UpdateSourceCount nat nat
  | UpdateSourceError nat jsstring
  | LogScrape nat jsstring nat nat "jsstring option"

text \<open>
  What the awaited calls of one loop iteration do: \<open>None\<close> is a promise that resolves, \<open>Some m\<close>
  or \<open>Inl m\<close> one that rejects with an error of message \<open>m\<close>, \<open>Inr n\<close> a \<open>scrape()\<close> that
  resolves to \<open>n\<close> articles; \<open>elapsed\<close> is \<open>Date.now() - scrapeStart\<close>.
\<close>

record attempt =
  on_touch :: "jsstring option"
  on_scrape :: "jsstring + nat"
  on_touch_success :: "jsstring option"
  on_count :: "jsstring option"
  on_error :: "jsstring option"
  on_log :: "jsstring option"
  elapsed :: nat

text \<open>
  An iteration of the \<open>for\<close> loop: the source id, the scraper that \<open>this.scrapers.get\<close> gives
  for it, and what the world does during the iteration.
\<close>

record job =
  job_id :: nat
  job_scraper :: "scraper option"
  job_attempt :: attempt

text \<open>
  The loop is an asynchronous function: it runs from one \<open>await\<close> to the next.  The control
  point names the \<open>await\<close> at which it is suspended, with the local variables
  \<open>articlesFound\<close>, \<open>status\<close> and \<open>errorMessage\<close> where they are set:
  \<^item> \<open>AwaitTouch\<close>: \<open>updateSourceTimestamp(sourceId, 'last_scraped')\<close>;
  \<^item> \<open>AwaitScrape\<close>: \<open>scraper.scrape()\<close>;
  \<^item> \<open>AwaitTouchSuccess\<close>: \<open>updateSourceTimestamp(sourceId, 'last_successful_scrape')\<close>;
  \<^item> \<open>AwaitCount\<close>: \<open>updateSourceCount\<close>;
  \<^item> \<open>AwaitError\<close>: \<open>updateSourceError\<close> in the \<open>catch\<close> block;
  \<^item> \<open>AwaitLog\<close>: \<open>logScrape\<close> after the \<open>try\<close> statement;
  \<^item> \<open>Returned\<close>: the loop is over; \<open>Thrown\<close>: an error left the loop.
\<close>

datatype pc =
    AwaitTouch
  | AwaitScrape
  | AwaitTouchSuccess nat
  | AwaitCount nat
  | AwaitError jsstring nat
  | AwaitLog jsstring nat "jsstring option"
  | Returned
  | Thrown jsstring

text \<open>
  A run in progress: the control point, the iterations from the current one on, the
  \<open>results\<close> object and the statements sent so far.
\<close>

record run =
  pc :: pc
  todo :: "job list"
  res :: results
  queries :: "query list"

definition job_name :: "job \<Rightarrow> jsstring" where
  "job_name j = (case job_scraper j of None \<Rightarrow> [] | Some s \<Rightarrow> sourceName s)"

text \<open>\<open>maxArticles && results.articles >= maxArticles\<close>: an absent or zero limit is no limit.\<close>

definition cap_reached :: "int option \<Rightarrow> 'a results_scheme \<Rightarrow> bool" where
  "cap_reached maxArticles rs =
     (case maxArticles of None \<Rightarrow> False | Some n \<Rightarrow> n \<noteq> 0 \<and> int (found rs) \<ge> n)"

text \<open>
  From the head of the loop to the first \<open>await\<close>: an id without scraper counts as failed and
  the loop continues with the next id; the end of the list ends the loop.
\<close>

fun advance :: "run \<Rightarrow> job list \<Rightarrow> run" where
  "advance r [] = r\<lparr>pc := Returned, todo := []\<rparr>"
| "advance r (j # js) =
     (case job_scraper j of
        None \<Rightarrow> advance (r\<lparr>res := (res r)\<lparr>failed := failed (res r) + 1\<rparr>\<rparr>) js
      | Some s \<Rightarrow> r\<lparr>pc := AwaitTouch, todo := j # js\<rparr>)"

text \<open>The \<open>catch\<close> block up to its \<open>await\<close>.\<close>

definition enter_catch :: "jsstring \<Rightarrow> nat \<Rightarrow> run \<Rightarrow> run" where
  "enter_catch message articlesFound r =
     r\<lparr>res := (res r)\<lparr>failed := failed (res r) + 1\<rparr>, pc := AwaitError message articlesFound\<rparr>"

text \<open>The end of the \<open>try\<close> block: \<open>break\<close> when the limit is reached, else on to \<open>logScrape\<close>.\<close>

definition leave_try :: "int option \<Rightarrow> nat \<Rightarrow> run \<Rightarrow> run" where
  "leave_try maxArticles articlesFound r =
     (if cap_reached maxArticles (res r) then r\<lparr>pc := Returned\<rparr>
      else r\<lparr>pc := AwaitLog ''success'' articlesFound None\<rparr>)"

text \<open>The loop resumed at its \<open>await\<close> and run to the next one.\<close>

definition resume :: "int option \<Rightarrow> run \<Rightarrow> run" where
  "resume maxArticles r =
     (case todo r of
        [] \<Rightarrow> r
      | j # js \<Rightarrow>
          (case pc r of
             AwaitTouch \<Rightarrow>
               (case on_touch (job_attempt j) of
                  Some m \<Rightarrow> enter_catch m 0 r
                | None \<Rightarrow>
                    r\<lparr>queries := queries r @ [UpdateSourceTimestamp (job_id j) ''last_scraped''],
                      pc := AwaitScrape\<rparr>)
           | AwaitScrape \<Rightarrow>
               (case on_scrape (job_attempt j) of
                  Inl m \<Rightarrow> enter_catch m 0 r
                | Inr n \<Rightarrow>
                    if n > 0
                    then r\<lparr>res := (res r)\<lparr>successful := successful (res r) + 1,
                                           found := found (res r) + n\<rparr>,
                           pc := AwaitTouchSuccess n\<rparr>
                    else leave_try maxArticles 0
                           (r\<lparr>res := (res r)\<lparr>successful := successful (res r) + 1\<rparr>\<rparr>))
           | AwaitTouchSuccess n \<Rightarrow>
               (case on_touch_success (job_attempt j) of
                  Some m \<Rightarrow> enter_catch m n r
                | None \<Rightarrow>
                    r\<lparr>queries := queries r
                         @ [UpdateSourceTimestamp (job_id j) ''last_successful_scrape''],
                      pc := AwaitCount n\<rparr>)
           | AwaitCount n \<Rightarrow>
               (case on_count (job_attempt j) of
                  Some m \<Rightarrow> enter_catch m n r
                | None \<Rightarrow>
                    leave_try maxArticles n
                      (r\<lparr>queries := queries r @ [UpdateSourceCount (job_id j) n]\<rparr>))
           | AwaitError m n \<Rightarrow>
               (case on_error (job_attempt j) of
                  Some m' \<Rightarrow> r\<lparr>pc := Thrown m'\<rparr>
                | None \<Rightarrow>
                    r\<lparr>queries := queries r @ [UpdateSourceError (job_id j) m],
                      pc := AwaitLog ''error'' n (Some m)\<rparr>)
           | AwaitLog status n errorMessage \<Rightarrow>
               (case on_log (job_attempt j) of
                  Some m' \<Rightarrow> r\<lparr>pc := Thrown m'\<rparr>
                | None \<Rightarrow>
                    advance
                      (r\<lparr>queries := queries r
                           @ [LogScrape (job_id j) status n (elapsed (job_attempt j)) errorMessage],
                         res := (res r)\<lparr>details := details (res r)
                           @ [\<lparr>detail_source = job_name j, detail_status = status,
                                detail_articles = n, detail_duration = elapsed (job_attempt j),
                                detail_error = errorMessage\<rparr>]\<rparr>\<rparr>)
                      js)
           | Returned \<Rightarrow> r
           | Thrown m \<Rightarrow> r))"

text \<open>The loop resumed \<open>k\<close> times.\<close>

definition exec :: "int option \<Rightarrow> nat \<Rightarrow> run \<Rightarrow> run" where
  "exec maxArticles k r = (resume maxArticles ^^ k) r"

text \<open>The call of the loop: the fresh \<open>results\<close> object, and the loop run to its first \<open>await\<close>.\<close>

definition start :: "nat \<Rightarrow> job list \<Rightarrow> run" where
  "start n jobs =
     advance \<lparr>pc = Returned, todo = jobs,
              res = \<lparr>total = n, successful = 0, failed = 0, found = 0, details = []\<rparr>,
              queries = []\<rparr> jobs"

definition settled :: "run \<Rightarrow> bool" where
  "settled r = (case pc r of Returned \<Rightarrow> True | Thrown m \<Rightarrow> True | _ \<Rightarrow> False)"

text \<open>
  The manager: the flag and the map of scrapers, an association list in insertion order with
  pairwise different keys.  \<open>world i\<close> is what happens during the iteration at position \<open>i\<close>.
\<close>

record manager =
  isRunning :: bool
  scrapers :: "(nat \<times> scraper) list"

definition all_jobs :: "(nat \<Rightarrow> attempt) \<Rightarrow> (nat \<times> scraper) list \<Rightarrow> job list" where
  "all_jobs world scs =
     map (\<lambda>(i, (sid, s)). \<lparr>job_id = sid, job_scraper = Some s, job_attempt = world i\<rparr>)
       (enumerate 0 scs)"

definition selected_jobs :: "(nat \<Rightarrow> attempt) \<Rightarrow> (nat \<times> scraper) list \<Rightarrow> nat list \<Rightarrow> job list" where
  "selected_jobs world scs sids =
     map (\<lambda>(i, sid).
            \<lparr>job_id = sid, job_scraper = map_of scs sid, job_attempt = world i\<rparr>)
       (enumerate 0 sids)"

text \<open>
  What a call gives back: the object \<open>{success: false, message}\<close>, the object
  \<open>{success: true, duration, ...finalResults}\<close> (without the clock reading \<open>duration\<close>), the
  object \<open>{success: true, source, articles}\<close> of \<open>scrapeSingle\<close>, a rejected promise, or, for a
  loop that is still suspended when the fuel is used up, nothing.
\<close>

record report = results +
  timedOut :: bool

datatype failure = NoScraper nat | Rejected jsstring

datatype outcome =
    Busy jsstring
  | Done report
  | DoneSingle jsstring nat
  | Failed failure
  | Pending

definition report_of :: "results \<Rightarrow> bool \<Rightarrow> report" where
  "report_of rs t =
     \<lparr>total = total rs, successful = successful rs, failed = failed rs, found = found rs,
      details = details rs, timedOut = t\<rparr>"

text \<open>
  \<open>scrapeAll\<close>.  Every scraper of the map is an iteration; there is no limit.  A loop of \<open>n\<close>
  iterations is resumed at most \<open>6 * n\<close> times.  When an error leaves the loop the promise
  rejects and the flag stays set.  The third component is the loop as the call leaves it.
\<close>

definition scrapeAll :: "(nat \<Rightarrow> attempt) \<Rightarrow> manager \<Rightarrow> outcome \<times> manager \<times> run option" where
  "scrapeAll world m =
     (if isRunning m then (Busy ''Scraping already in progress'', m, None)
      else
        let jobs = all_jobs world (scrapers m);
            r = exec None (6 * length jobs) (start (length (scrapers m)) jobs)
        in (case pc r of
              Returned \<Rightarrow> (Done (report_of (res r) False), m\<lparr>isRunning := False\<rparr>, Some r)
            | Thrown e \<Rightarrow> (Failed (Rejected e), m\<lparr>isRunning := True\<rparr>, Some r)
            | _ \<Rightarrow> (Pending, m\<lparr>isRunning := True\<rparr>, Some r)))"

text \<open>
  \<open>scrapeSelected\<close>.  With a truthy \<open>timeout\<close> the loop races a timer.  Which of the two settles
  first is decided by the clock and is the parameter \<open>expiry\<close>: \<open>Some k\<close> when the timer fires
  after the loop has been resumed \<open>k\<close> times, \<open>None\<close> when it does not fire before the loop has
  settled.  A loop that has settled by then wins the race.  The \<open>catch\<close> around the race takes
  every rejection for the timer's: \<open>results\<close> as it is at that moment, with \<open>timedOut\<close> set.
  Without timeout the loop is awaited; an error that left it rejects the call, the flag
  staying set.
\<close>

definition race_result :: "manager \<Rightarrow> run \<Rightarrow> outcome \<times> manager \<times> run option" where
  "race_result m r =
     (case pc r of
        Returned \<Rightarrow> (Done (report_of (res r) False), m\<lparr>isRunning := False\<rparr>, Some r)
      | _ \<Rightarrow> (Done (report_of (res r) True), m\<lparr>isRunning := False\<rparr>, Some r))"

definition scrapeSelected ::
  "(nat \<Rightarrow> attempt) \<Rightarrow> manager \<Rightarrow> nat list \<Rightarrow> int option \<Rightarrow> int option \<Rightarrow> nat option
     \<Rightarrow> outcome \<times> manager \<times> run option" where
  "scrapeSelected world m sids timeout maxArticles expiry =
     (if isRunning m then (Busy ''Scraping already in progress'', m, None)
      else
        let jobs = selected_jobs world (scrapers m) sids;
            r0 = start (length sids) jobs;
            full = exec maxArticles (6 * length jobs) r0
        in if timeout \<noteq> None \<and> timeout \<noteq> Some 0 then
             (case expiry of
                Some k \<Rightarrow> race_result m (exec maxArticles k r0)
              | None \<Rightarrow> race_result m full)
           else
             (case pc full of
                Returned \<Rightarrow> (Done (report_of (res full) False), m\<lparr>isRunning := False\<rparr>, Some full)
              | Thrown e \<Rightarrow> (Failed (Rejected e), m\<lparr>isRunning := True\<rparr>, Some full)
              | _ \<Rightarrow> (Pending, m\<lparr>isRunning := True\<rparr>, Some full)))"

text \<open>
  \<open>scrapeSingle\<close>: neither reads nor writes the flag.  The second component of the result is
  the list of statements sent.
\<close>

definition scrapeSingle :: "attempt \<Rightarrow> manager \<Rightarrow> nat \<Rightarrow> outcome \<times> manager \<times> query list" where
  "scrapeSingle a m sid =
     (case map_of (scrapers m) sid of
        None \<Rightarrow> (Failed (NoScraper sid), m, [])
      | Some s \<Rightarrow>
          (let caught = (\<lambda>message qs.
                 (case on_error a of
                    Some m' \<Rightarrow> (Failed (Rejected m'), m, qs)
                  | None \<Rightarrow>
                      (Failed (Rejected message), m, qs @ [UpdateSourceError sid message])))
           in case on_scrape a of
                Inl e \<Rightarrow> caught e []
              | Inr n \<Rightarrow>
                  (case on_touch a of
                     Some e \<Rightarrow> caught e []
                   | None \<Rightarrow>
                       (case on_touch_success a of
                          Some e \<Rightarrow> caught e [UpdateSourceTimestamp sid ''last_scraped'']
                        | None \<Rightarrow>
                            (case on_count a of
                               Some e \<Rightarrow>
                                 caught e
                                   [UpdateSourceTimestamp sid ''last_scraped'',
                                    UpdateSourceTimestamp sid ''last_successful_scrape'']
                             | None \<Rightarrow>
                                 (DoneSingle (sourceName s) n, m,
                                  [UpdateSourceTimestamp sid ''last_scraped'',
                                   UpdateSourceTimestamp sid ''last_successful_scrape'',
                                   UpdateSourceCount sid n]))))))"

text \<open>The number of articles the scrape of an iteration resolves to (0 when it does not).\<close>

definition yield :: "job \<Rightarrow> nat" where
  "yield j =
     (case job_scraper j of
        None \<Rightarrow> 0
      | Some s \<Rightarrow>
          (case on_touch (job_attempt j) of
             Some m \<Rightarrow> 0
           | None \<Rightarrow> (case on_scrape (job_attempt j) of Inl m \<Rightarrow> 0 | Inr n \<Rightarrow> n)))"

text \<open>
  An iteration is smooth when the two updates that follow a non-empty scrape resolve.
\<close>

definition smooth :: "attempt \<Rightarrow> bool" where
  "smooth a = (on_touch_success a = None \<and> on_count a = None)"

definition unknown :: "job \<Rightarrow> bool" where
  "unknown j = (job_scraper j = None)"

subsection \<open>Invariants of the loop\<close>

text \<open>
  In each invariant \<open>ds\<close> is the list of iterations the loop has finished, so that the list of
  all iterations is \<open>ds @ todo r\<close>.  \<open>tally_inv\<close>: the two counters add up to the number of
  finished iterations, plus one from the moment the current one has been counted.
\<close>

definition tally_inv :: "int option \<Rightarrow> job list \<Rightarrow> run \<Rightarrow> bool" where
  "tally_inv cap ds r =
     (total (res r) = length ds + length (todo r)
      \<and> (case pc r of
            AwaitTouch \<Rightarrow>
              todo r \<noteq> [] \<and> successful (res r) + failed (res r) = length ds
          | AwaitScrape \<Rightarrow>
              todo r \<noteq> [] \<and> successful (res r) + failed (res r) = length ds
          | Returned \<Rightarrow>
              (if todo r = [] then successful (res r) + failed (res r) = length ds
               else successful (res r) + failed (res r) = length ds + 1
                    \<and> cap_reached cap (res r))
          | _ \<Rightarrow> todo r \<noteq> [] \<and> successful (res r) + failed (res r) = length ds + 1))"

text \<open>The number of times a loop can still be resumed.\<close>

definition rank :: "pc \<Rightarrow> nat" where
  "rank p =
     (case p of
        AwaitTouch \<Rightarrow> 6 | AwaitScrape \<Rightarrow> 5 | AwaitTouchSuccess n \<Rightarrow> 4 | AwaitCount n \<Rightarrow> 3
      | AwaitError m n \<Rightarrow> 2 | AwaitLog st n em \<Rightarrow> 1 | Returned \<Rightarrow> 0 | Thrown m \<Rightarrow> 0)"

definition steps_left :: "run \<Rightarrow> nat" where
  "steps_left r = (if settled r then 0 else 6 * (length (todo r) - 1) + rank (pc r))"

text \<open>1 at the control points where the current iteration is in \<open>successful\<close> or \<open>failed\<close>.\<close>

definition counted :: "pc \<Rightarrow> nat" where
  "counted p =
     (case p of
        AwaitTouchSuccess n \<Rightarrow> 1 | AwaitCount n \<Rightarrow> 1 | AwaitError m n \<Rightarrow> 1
      | AwaitLog st n em \<Rightarrow> 1 | _ \<Rightarrow> 0)"

text \<open>The source id of a row written to \<open>scrape_logs\<close>.\<close>

definition logged :: "query \<Rightarrow> nat option" where
  "logged q = (case q of LogScrape sid st n el em \<Rightarrow> Some sid | _ \<Rightarrow> None)"

text \<open>
  \<open>ledger_inv\<close>: a suspended loop has a current iteration, with a scraper; a loop that
  returned with iterations left reached the limit; every finished iteration without scraper
  is in \<open>failed\<close>, and it is in \<open>failed\<close> without being in \<open>details\<close>.
\<close>

definition ledger_inv :: "int option \<Rightarrow> job list \<Rightarrow> run \<Rightarrow> bool" where
  "ledger_inv cap ds r =
     (total (res r) = length ds + length (todo r)
      \<and> (\<not> settled r \<longrightarrow> todo r \<noteq> [] \<and> \<not> unknown (hd (todo r)))
      \<and> (pc r = Returned \<and> todo r \<noteq> [] \<longrightarrow> cap_reached cap (res r))
      \<and> length (filter unknown ds) \<le> failed (res r)
      \<and> length (details (res r)) + length (filter unknown ds) + counted (pc r)
           \<le> successful (res r) + failed (res r)
      \<and> length (details (res r)) + length (filter unknown ds) \<le> length ds)"

text \<open>
  \<open>origin_inv\<close>: every entry of \<open>details\<close> and every row of \<open>scrape_logs\<close> comes from a
  finished iteration that has a scraper.
\<close>

definition origin_inv :: "job list \<Rightarrow> run \<Rightarrow> bool" where
  "origin_inv ds r =
     ((\<forall>d \<in> set (details (res r)). \<exists>j \<in> set ds. \<not> unknown j \<and> detail_source d = job_name j)
      \<and> (\<forall>q \<in> set (queries r). \<forall>sid. logged q = Some sid
            \<longrightarrow> (\<exists>j \<in> set ds. \<not> unknown j \<and> job_id j = sid)))"

text \<open>
  \<open>cap_inv\<close>, for a limit \<open>N\<close>: \<open>found\<close> is the sum of what the finished iterations yielded,
  plus the yield of the current one once it is counted; the finished iterations alone
  stayed below the limit.
\<close>

definition yields :: "job list \<Rightarrow> nat" where
  "yields js = sum_list (map yield js)"

definition cap_inv :: "int \<Rightarrow> job list \<Rightarrow> run \<Rightarrow> bool" where
  "cap_inv N ds r =
     (int (yields ds) < N
      \<and> (case pc r of
            AwaitTouch \<Rightarrow>
              todo r \<noteq> [] \<and> \<not> unknown (hd (todo r)) \<and> found (res r) = yields ds
          | AwaitScrape \<Rightarrow>
              todo r \<noteq> [] \<and> \<not> unknown (hd (todo r))
              \<and> on_touch (job_attempt (hd (todo r))) = None \<and> found (res r) = yields ds
          | AwaitTouchSuccess n \<Rightarrow>
              todo r \<noteq> [] \<and> yield (hd (todo r)) = n \<and> found (res r) = yields ds + n
          | AwaitCount n \<Rightarrow>
              todo r \<noteq> [] \<and> yield (hd (todo r)) = n \<and> found (res r) = yields ds + n
          | AwaitError m n \<Rightarrow>
              todo r \<noteq> [] \<and> yield (hd (todo r)) = 0 \<and> found (res r) = yields ds
          | AwaitLog st n em \<Rightarrow>
              todo r \<noteq> [] \<and> found (res r) = yields ds + yield (hd (todo r))
              \<and> int (found (res r)) < N
          | Returned \<Rightarrow>
              (if todo r = [] then found (res r) = yields ds
               else found (res r) = yields ds + yield (hd (todo r)) \<and> N \<le> int (found (res r)))
          | Thrown m \<Rightarrow> True))"

text \<open>The ids of a list that have no scraper in the map.\<close>

definition unregistered :: "(nat \<times> scraper) list \<Rightarrow> nat list \<Rightarrow> nat list" where
  "unregistered scs sids = filter (\<lambda>sid. map_of scs sid = None) sids"

text \<open>Concrete managers and worlds used to exercise the orchestration.\<close>

definition finds :: "nat \<Rightarrow> attempt" where
  "finds n =
     \<lparr>on_touch = None, on_scrape = Inr n, on_touch_success = None, on_count = None,
      on_error = None, on_log = None, elapsed = 5\<rparr>"

text \<open>The world in which every iteration goes the same way.\<close>

definition every :: "attempt \<Rightarrow> nat \<Rightarrow> attempt" where
  "every a i = a"

definition idle_manager :: manager where
  "idle_manager = \<lparr>isRunning = False, scrapers = [(1, page_scraper), (4, feed_scraper)]\<rparr>"

definition busy_manager :: manager where
  "busy_manager = idle_manager\<lparr>isRunning := True\<rparr>"

text \<open>What identifies a tag: id, name and type (the usage counter is the mutable part).\<close>

definition tag_key :: "tag \<Rightarrow> nat \<times> jsstring \<times> jsstring" where
  "tag_key t = (tag_id t, tag_name t, tag_type t)"

text \<open>Concrete rows used to exercise the store.\<close>

definition storm_article :: article_data where
  "storm_article =
     \<lparr>source_id = Some 1, title = Some ''Storm warning issued for coast'',
      excerpt = Some ''A warning is in effect.'', content = None,
      url = Some ''https://x.com/a'', author = None, category = Some ''weather'',
      content_type = Some ''news'', platform = None, image_url = None, published_at = None\<rparr>"

definition storm_article_again :: article_data where
  "storm_article_again =
     storm_article\<lparr>title := Some ''Storm warning lifted'',
                    excerpt := Some ''The warning has ended.''\<rparr>"

definition foley_store :: store where
  "foley_store =
     \<lparr>sources = [1],
      articles = [\<lparr>source_id = Some 1, title = Some ''Foley council meets'', excerpt = None,
                   content = None, url = Some ''https://x.com/b'', author = None,
                   category = Some ''politics'', content_type = Some ''news'', platform = None,
                   image_url = None, published_at = None, row_id = 1, scraped_at = 5,
                   created_at = 5, updated_at = 5\<rparr>],
      articles_id_seq = 2,
      tags = [\<lparr>tag_id = 1, tag_name = ''#Foley'', tag_type = ''hashtag'', tag_count = 3,
               tag_created_at = 0\<rparr>],
      tags_id_seq = 2,
      article_tags = []\<rparr>"

section \<open>Theorems\<close>

text \<open>
  Claim C6.  The category is a function of the lower-cased concatenation of title, a blank and
  excerpt alone; it is the category of the first rule, in the order weather, politics, sports,
  education, tourism, development, whose keyword occurs in that text, and \<open>local\<close> when no
  rule matches; it is always one of these seven names; and a text in which both a weather term
  and a sports term occur is classified \<open>weather\<close>.
\<close>

theorem categorizeArticle_first_rule_wins:
  "categorizeArticle lc ttl exc = classify_by_precedence (lc (ttl @ '' '' @ exc))
   \<and> categorizeArticle lc ttl exc \<in> set categories
   \<and> (regex_test weather_terms (lc (ttl @ '' '' @ exc))
        \<and> regex_test sports_terms (lc (ttl @ '' '' @ exc))
      \<longrightarrow> categorizeArticle lc ttl exc = ''weather'')"
  by (simp add: categorizeArticle_def classify_by_precedence_def category_rules_def
      categories_def Let_def)

theorem categorizeArticle_first_rule_wins_witness:
  "regex_test weather_terms (ascii_lower (''Storm delays'' @ '' '' @ ''Football GAME moved''))
   \<and> regex_test sports_terms (ascii_lower (''Storm delays'' @ '' '' @ ''Football GAME moved''))
   \<and> categorizeArticle ascii_lower ''Storm delays'' ''Football GAME moved'' = ''weather''"
proof -
  have w: "regex_test weather_terms (ascii_lower (''Storm delays'' @ '' '' @ ''Football GAME moved''))"
    by code_simp
  have s: "regex_test sports_terms (ascii_lower (''Storm delays'' @ '' '' @ ''Football GAME moved''))"
    by code_simp
  from categorizeArticle_first_rule_wins [of ascii_lower "''Storm delays''" "''Football GAME moved''"]
    w s show ?thesis by blast
qed

subsection \<open>Upsert by URL\<close>

lemma find_unique:
  "filter P xs = [x] \<Longrightarrow> find P xs = Some x"
  by (induction xs) (auto split: if_splits simp: filter_empty_conv)

lemma filter_url_map:
  "url row = u \<Longrightarrow> filter (\<lambda>r. url r = u) (map (\<lambda>r. if url r = u then row else r) xs)
     = map (\<lambda>r. row) (filter (\<lambda>r. url r = u) xs)"
  by (induction xs) auto

lemma map_url_map:
  "url row = u \<Longrightarrow> map (url \<circ> (\<lambda>r. if url r = u then row else r)) xs = map url xs"
  by (induction xs) auto

lemma distinct_filter_one:
  "distinct (map f xs) \<Longrightarrow> x \<in> set xs \<Longrightarrow> filter (\<lambda>r. f r = f x) xs = [x]"
  by (induction xs) (auto simp: filter_empty_conv image_iff)

lemma coerce_article_fields:
  "coerce_article d = Inr v \<Longrightarrow>
     varchar_null 500 (title d) = Inr (title v) \<and> varchar_null 1000 (url d) = Inr (url v)
     \<and> excerpt v = excerpt d \<and> content v = content d"
  by (auto simp: coerce_article_def and_then_def split: sum.splits)

lemma create_result:
  assumes "create now d st = Inr (r, st')" and "distinct (map url (articles st))"
  shows "\<exists>v. coerce_article d = Inr v \<and> url r = url v \<and> title r = title v \<and> excerpt r = excerpt v
     \<and> content r = content v \<and> updated_at r = now \<and> url v \<noteq> None
     \<and> (case find (\<lambda>x. url x = url v) (articles st) of Some old \<Rightarrow> created_at r = created_at old | None \<Rightarrow> created_at r = now)
     \<and> filter (\<lambda>x. url x = url v) (articles st') = [r]
     \<and> distinct (map url (articles st'))"
proof -
  from assms(1) obtain v where v: "coerce_article d = Inr v" and nn: "not_null_article v = None"
    by (auto simp: create_def and_then_def split: sum.splits option.splits)
  from nn have un: "url v \<noteq> None"
    by (auto simp: not_null_article_def split: if_splits)
  show ?thesis
  proof (cases "find (\<lambda>x. url x = url v) (articles st)")
    case None
    then have nf: "filter (\<lambda>x. url x = url v) (articles st) = []"
      by (auto simp: find_None_iff filter_empty_conv)
    from None have "url v \<notin> url ` set (articles st)" by (auto simp: find_None_iff)
    with assms v nn un None nf show ?thesis
      by (auto simp: create_def and_then_def Let_def split: option.splits)
  next
    case (Some old)
    then have o: "old \<in> set (articles st)" "url old = url v"
      by (auto simp: find_Some_iff)
    with assms(2) have f: "filter (\<lambda>x. url x = url v) (articles st) = [old]"
      using distinct_filter_one [of url "articles st" old] by simp
    from assms v nn un Some o f show ?thesis
      by (auto simp: create_def and_then_def Let_def filter_url_map map_url_map)
  qed
qed

text \<open>
  Claim C1.  Take a store whose article urls are pairwise different, and two calls of
  \<open>Article.create\<close> with the same url that both return, the second with a title within the
  500 characters of its column.  Afterwards exactly one row has that url, the row the second
  call returns; its title, excerpt and content are those of the second call, its
  \<open>updated_at\<close> is the time of the second call, and its \<open>created_at\<close> is that of the row the
  first call returned, which is the time of the first call when the url was new.
\<close>

theorem create_same_url_twice:
  assumes "distinct (map url (articles st))"
    and "create t1 d1 st = Inr (r1, st1)"
    and "create t2 d2 st1 = Inr (r2, st2)"
    and "url d2 = url d1"
    and "\<forall>s. title d2 = Some s \<longrightarrow> length s \<le> 500"
  shows "filter (\<lambda>r. url r = url r2) (articles st2) = [r2]
    \<and> url r2 = url r1 \<and> varchar_null 1000 (url d1) = Inr (url r1)
    \<and> title r2 = title d2 \<and> excerpt r2 = excerpt d2 \<and> content r2 = content d2
    \<and> updated_at r2 = t2
    \<and> created_at r2 = created_at r1
    \<and> (findByUrl (url r1) st = None \<longrightarrow> created_at r1 = t1)"
proof -
  from create_result [OF assms(2) assms(1)] obtain v1 where
    v1: "coerce_article d1 = Inr v1" "url r1 = url v1" "url v1 \<noteq> None"
      "case find (\<lambda>x. url x = url v1) (articles st) of Some old \<Rightarrow> created_at r1 = created_at old | None \<Rightarrow> created_at r1 = t1"
      "filter (\<lambda>x. url x = url v1) (articles st1) = [r1]" "distinct (map url (articles st1))"
    by blast
  from create_result [OF assms(3) v1(6)] obtain v2 where
    v2: "coerce_article d2 = Inr v2" "url r2 = url v2" "title r2 = title v2" "excerpt r2 = excerpt v2"
      "content r2 = content v2" "updated_at r2 = t2"
      "case find (\<lambda>x. url x = url v2) (articles st1) of Some old \<Rightarrow> created_at r2 = created_at old | None \<Rightarrow> created_at r2 = t2"
      "filter (\<lambda>x. url x = url v2) (articles st2) = [r2]"
    by blast
  from coerce_article_fields [OF v1(1)] coerce_article_fields [OF v2(1)] assms(4)
  have u: "url v2 = url v1" by simp
  then have "find (\<lambda>x. url x = url v2) (articles st1) = Some r1"
    using v1(5) by (simp add: find_unique)
  with v2(7) have c: "created_at r2 = created_at r1" by simp
  from coerce_article_fields [OF v2(1)] assms(5) have t: "title v2 = title d2"
    by (auto simp: varchar_null_def varchar_def split: option.splits if_splits)
  from coerce_article_fields [OF v2(1)] have e: "excerpt v2 = excerpt d2" "content v2 = content d2" by simp_all
  have n: "findByUrl (url r1) st = None \<longrightarrow> created_at r1 = t1"
    using v1(2,3,4) by (auto simp: findByUrl_def split: option.splits)
  from coerce_article_fields [OF v1(1)] v1(2) have w: "varchar_null 1000 (url d1) = Inr (url r1)"
    by simp
  from v2 u v1(2) c t e n w show ?thesis by simp
qed

theorem create_same_url_twice_witness:
  "distinct (map url (articles (empty_store [1])))
   \<and> (\<exists>r1 st1 r2 st2.
        create 10 storm_article (empty_store [1]) = Inr (r1, st1)
        \<and> create 20 storm_article_again st1 = Inr (r2, st2)
        \<and> url storm_article_again = url storm_article
        \<and> (\<forall>s. title storm_article_again = Some s \<longrightarrow> length s \<le> 500)
        \<and> filter (\<lambda>r. url r = url r2) (articles st2) = [r2]
        \<and> title r2 = Some ''Storm warning lifted''
        \<and> excerpt r2 = Some ''The warning has ended.''
        \<and> updated_at r2 = 20 \<and> created_at r2 = 10)"
proof -
  let ?c1 = "create 10 storm_article (empty_store [1])"
  let ?c2 = "create 20 storm_article_again (snd (projr ?c1))"
  have d: "distinct (map url (articles (empty_store [1])))"
    by (simp add: empty_store_def)
  have "\<not> isl ?c1" by code_simp
  then have c1: "?c1 = Inr (fst (projr ?c1), snd (projr ?c1))"
    by (cases ?c1) auto
  have "\<not> isl ?c2" by code_simp
  then have c2: "?c2 = Inr (fst (projr ?c2), snd (projr ?c2))"
    by (cases ?c2) auto
  have u: "url storm_article_again = url storm_article"
    by (simp add: storm_article_again_def)
  have l: "\<forall>s. title storm_article_again = Some s \<longrightarrow> length s \<le> 500"
    by (simp add: storm_article_again_def)
  have n: "findByUrl (url (fst (projr ?c1))) (empty_store [1]) = None"
    by (simp add: findByUrl_def empty_store_def split: option.splits)
  note T = create_same_url_twice [OF d c1 c2 u l]
  have v: "title storm_article_again = Some ''Storm warning lifted''"
    "excerpt storm_article_again = Some ''The warning has ended.''"
    by (simp_all add: storm_article_again_def)
  from T have "filter (\<lambda>r. url r = url (fst (projr ?c2))) (articles (snd (projr ?c2)))
      = [fst (projr ?c2)]"
    and "title (fst (projr ?c2)) = title storm_article_again"
    and "excerpt (fst (projr ?c2)) = excerpt storm_article_again"
    and "updated_at (fst (projr ?c2)) = 20"
    and "created_at (fst (projr ?c2)) = created_at (fst (projr ?c1))"
    and "findByUrl (url (fst (projr ?c1))) (empty_store [1]) = None
           \<longrightarrow> created_at (fst (projr ?c1)) = 10"
    by blast+
  with n v
  have "filter (\<lambda>r. url r = url (fst (projr ?c2))) (articles (snd (projr ?c2))) = [fst (projr ?c2)]
    \<and> title (fst (projr ?c2)) = Some ''Storm warning lifted''
    \<and> excerpt (fst (projr ?c2)) = Some ''The warning has ended.''
    \<and> updated_at (fst (projr ?c2)) = 20 \<and> created_at (fst (projr ?c2)) = 10"
    by simp
  with d c1 c2 u l show ?thesis by blast
qed


subsection \<open>Tags and usage counters\<close>

lemma find_snoc:
  "find P (xs @ [x]) = (case find P xs of Some y \<Rightarrow> Some y | None \<Rightarrow> if P x then Some x else None)"
  by (induction xs) auto

lemma find_bump_count:
  "(case find (\<lambda>r. tag_id r = i)
           (map (\<lambda>r. if tag_id r = tid then r\<lparr>tag_count := tag_count r + 1\<rparr> else r) xs) of
      Some r \<Rightarrow> tag_count r | None \<Rightarrow> 0)
   = (case find (\<lambda>r. tag_id r = i) xs of
        Some r \<Rightarrow> tag_count r + (if i = tid then 1 else 0) | None \<Rightarrow> 0)"
  by (induction xs) auto

lemma usage_count_increment:
  assumes "tid \<in> tag_id ` set (tags st)"
  shows "usage_count (increment_tag_count tid st) i = usage_count st i + (if i = tid then 1 else 0)"
proof -
  from assms have "find (\<lambda>r. tag_id r = tid) (tags st) \<noteq> None"
    by (auto simp: find_None_iff)
  then show ?thesis
    by (auto simp: usage_count_def increment_tag_count_def find_bump_count split: option.splits)
qed

lemma usage_count_snoc:
  "tag_count t = 0 \<Longrightarrow> tags st1 = tags st @ [t] \<Longrightarrow> usage_count st1 i = usage_count st i"
  by (cases "find (\<lambda>r. tag_id r = i) (tags st)") (simp_all add: usage_count_def find_snoc)

lemma upsert_tag_effect:
  assumes "upsert_tag now nm ty st = Inr (tid, st1)"
  shows "article_tags st1 = article_tags st \<and> articles st1 = articles st
    \<and> usage_count st1 = usage_count st
    \<and> prefix (tags st) (tags st1)
    \<and> (\<exists>t \<in> set (tags st1). tag_id t = tid \<and> varchar 100 nm = Inr (tag_name t))"
proof -
  from assms obtain n t where n: "varchar 100 nm = Inr n" "varchar 20 ty = Inr t"
    by (auto simp: upsert_tag_def and_then_def split: sum.splits)
  show ?thesis
  proof (cases "find (\<lambda>r. tag_name r = n) (tags st)")
    case None
    let ?t = "\<lparr>tag_id = tags_id_seq st, tag_name = n, tag_type = t, tag_count = 0,
                tag_created_at = now\<rparr>"
    from assms n None have s: "tid = tags_id_seq st"
      "st1 = st\<lparr>tags := tags st @ [?t], tags_id_seq := tags_id_seq st + 1\<rparr>"
      by (auto simp: upsert_tag_def and_then_def)
    have "usage_count st1 i = usage_count st i" for i
      by (rule usage_count_snoc [of ?t]) (simp_all add: s)
    then have "usage_count st1 = usage_count st" by (simp add: fun_eq_iff)
    with n show ?thesis by (simp add: s)
  next
    case (Some old)
    then have "old \<in> set (tags st)" "tag_name old = n" by (auto simp: find_Some_iff)
    with assms n Some show ?thesis
      by (auto simp: upsert_tag_def and_then_def usage_count_def fun_eq_iff)
  qed
qed

lemma increment_keys: "map tag_key (tags (increment_tag_count tid st)) = map tag_key (tags st)"
  by (simp add: increment_tag_count_def tag_key_def cong: map_cong)

lemma link_tag_effect:
  assumes "link_tag aid tid st1 = Inr st2"
  shows "map tag_key (tags st2) = map tag_key (tags st1)
    \<and> (if (aid, tid) \<in> set (article_tags st1) then st2 = st1
       else article_tags st2 = article_tags st1 @ [(aid, tid)]
          \<and> (\<forall>i. usage_count st2 i = usage_count st1 i + (if i = tid then 1 else 0)))"
proof (cases "(aid, tid) \<in> set (article_tags st1)")
  case True
  with assms show ?thesis by (simp add: link_tag_def)
next
  case False
  with assms have t: "tid \<in> tag_id ` set (tags st1)"
    and s: "st2 = increment_tag_count tid (st1\<lparr>article_tags := article_tags st1 @ [(aid, tid)]\<rparr>)"
    by (auto simp: link_tag_def split: if_splits)
  have "usage_count st2 i = usage_count st1 i + (if i = tid then 1 else 0)" for i
    unfolding s using t
      usage_count_increment [of tid "st1\<lparr>article_tags := article_tags st1 @ [(aid, tid)]\<rparr>" i]
    by (simp add: usage_count_def)
  moreover have "map tag_key (tags st2) = map tag_key (tags st1)"
    unfolding s using increment_keys [of tid "st1\<lparr>article_tags := article_tags st1 @ [(aid, tid)]\<rparr>"]
    by simp
  moreover have "article_tags st2 = article_tags st1 @ [(aid, tid)]"
    unfolding s by (simp add: increment_tag_count_def)
  ultimately show ?thesis using False by simp
qed



lemma addTags_loop_effect:
  "addTags_loop now aid names st = (None, st') \<Longrightarrow>
     (\<forall>i. usage_count st' i = usage_count st i
            + (if (aid, i) \<in> set (article_tags st') \<and> (aid, i) \<notin> set (article_tags st) then 1 else 0))
     \<and> set (article_tags st) \<subseteq> set (article_tags st')
     \<and> prefix (map tag_key (tags st)) (map tag_key (tags st'))
     \<and> (\<forall>n \<in> set names. \<exists>t \<in> set (tags st'). varchar 100 n = Inr (tag_name t))
     \<and> (\<forall>p \<in> set (article_tags st') - set (article_tags st). fst p = aid)"
proof (induction names arbitrary: st)
  case Nil
  then show ?case by simp
next
  case (Cons n ns)
  let ?ty = "if starts_with ''#'' n then ''hashtag'' else ''general''"
  from Cons.prems obtain tid st1 where
    u: "upsert_tag now n ?ty st = Inr (tid, st1)"
    by (cases "upsert_tag now n ?ty st") auto
  from Cons.prems u obtain st2 where l: "link_tag aid tid st1 = Inr st2"
    by (cases "link_tag aid tid st1") auto
  from Cons.prems u l have r: "addTags_loop now aid ns st2 = (None, st')" by simp
  from upsert_tag_effect [OF u] have U1: "article_tags st1 = article_tags st"
    and U2: "usage_count st1 = usage_count st"
    and U3: "prefix (tags st) (tags st1)"
    and U4: "\<exists>t \<in> set (tags st1). tag_id t = tid \<and> varchar 100 n = Inr (tag_name t)"
    by blast+
  from link_tag_effect [OF l] have L1: "map tag_key (tags st2) = map tag_key (tags st1)"
    and L2: "(aid, tid) \<in> set (article_tags st1) \<Longrightarrow> st2 = st1"
    and L3: "(aid, tid) \<notin> set (article_tags st1) \<Longrightarrow> article_tags st2 = article_tags st1 @ [(aid, tid)]"
    and L4: "(aid, tid) \<notin> set (article_tags st1) \<Longrightarrow> usage_count st2 i = usage_count st1 i + (if i = tid then 1 else 0)" for i
    by (simp_all split: if_splits)
  from Cons.IH [OF r] have I1: "usage_count st' i = usage_count st2 i
            + (if (aid, i) \<in> set (article_tags st') \<and> (aid, i) \<notin> set (article_tags st2) then 1 else 0)" for i
    by blast
  from Cons.IH [OF r] have I2: "set (article_tags st2) \<subseteq> set (article_tags st')"
    and I3: "prefix (map tag_key (tags st2)) (map tag_key (tags st'))"
    and I4: "\<forall>n \<in> set ns. \<exists>t \<in> set (tags st'). varchar 100 n = Inr (tag_name t)"
    and I5: "\<forall>p \<in> set (article_tags st') - set (article_tags st2). fst p = aid"
    by blast+
  have own: "\<forall>p \<in> set (article_tags st') - set (article_tags st). fst p = aid"
  proof (cases "(aid, tid) \<in> set (article_tags st1)")
    case True
    with L2 U1 I5 show ?thesis by simp
  next
    case False
    from L3 [OF False] U1 have "set (article_tags st2) = insert (aid, tid) (set (article_tags st))"
      by simp
    with I5 show ?thesis by auto
  qed
  have at: "set (article_tags st) \<subseteq> set (article_tags st')"
  proof (cases "(aid, tid) \<in> set (article_tags st1)")
    case True
    with L2 U1 I2 show ?thesis by simp
  next
    case False
    with L3 U1 I2 show ?thesis by auto
  qed
  have keys: "prefix (map tag_key (tags st)) (map tag_key (tags st'))"
  proof -
    from U3 have "prefix (map tag_key (tags st)) (map tag_key (tags st1))"
      by (auto simp: prefix_def)
    with L1 I3 show ?thesis by (simp add: prefix_order.order_trans [of "map tag_key (tags st)" "map tag_key (tags st1)"])
  qed
  have cnt: "usage_count st' i = usage_count st i
            + (if (aid, i) \<in> set (article_tags st') \<and> (aid, i) \<notin> set (article_tags st) then 1 else 0)" for i
  proof (cases "(aid, tid) \<in> set (article_tags st1)")
    case True
    with L2 have "st2 = st1" by simp
    with U1 U2 I1 [of i] show ?thesis by simp
  next
    case False
    note a = L3 [OF False] and c = L4 [OF False, of i]
    from a I2 have m: "(aid, tid) \<in> set (article_tags st')" by auto
    show ?thesis
    proof (cases "i = tid")
      case True
      with I1 [of i] a c U1 U2 False m show ?thesis by simp
    next
      case False
      with I1 [of i] a c U1 U2 show ?thesis by simp
    qed
  qed
  have nm: "\<forall>m \<in> set (n # ns). \<exists>t \<in> set (tags st'). varchar 100 m = Inr (tag_name t)"
  proof -
    from U4 obtain t where t: "t \<in> set (tags st1)" "varchar 100 n = Inr (tag_name t)" by blast
    then have "tag_key t \<in> set (map tag_key (tags st1))" by simp
    with L1 have "tag_key t \<in> set (map tag_key (tags st2))" by simp
    moreover from I3 have "set (map tag_key (tags st2)) \<subseteq> set (map tag_key (tags st'))"
      by (rule set_mono_prefix)
    ultimately have "tag_key t \<in> set (map tag_key (tags st'))"
      by (rule subsetD [rotated])
    then obtain t' where "t' \<in> set (tags st')" "tag_key t' = tag_key t" by auto
    with t have "\<exists>t \<in> set (tags st'). varchar 100 n = Inr (tag_name t)"
      by (auto simp: tag_key_def intro!: bexI [of _ t'])
    with I4 show ?thesis by simp
  qed
  from cnt have "\<forall>i. usage_count st' i = usage_count st i
            + (if (aid, i) \<in> set (article_tags st') \<and> (aid, i) \<notin> set (article_tags st) then 1 else 0)"
    by (rule allI)
  with at keys nm own show ?case by - (intro conjI; assumption)
qed



lemma addTags_rollback:
  "addTags now aid names st = (Some e, st') \<Longrightarrow>
     tags st' = tags st \<and> article_tags st' = article_tags st \<and> articles st' = articles st"
  by (auto simp: addTags_def split: prod.splits option.splits)

text \<open>
  Claim C9.  When \<open>Article.addTags\<close> commits: every association that is in \<open>article_tags\<close>
  afterwards and was not there before belongs to the given article, and the usage counter of
  its tag is one more than before; the counter of every other tag id is unchanged; every tag
  that existed before is still there with the same id, name and type, in the same position;
  and every name passed has a tag afterwards.
\<close>

theorem addTags_counts_new_associations:
  assumes "addTags now aid names st = (None, st')"
  shows "(\<forall>p \<in> set (article_tags st') - set (article_tags st).
            fst p = aid \<and> usage_count st' (snd p) = usage_count st (snd p) + 1)
    \<and> (\<forall>i. (aid, i) \<notin> set (article_tags st') - set (article_tags st)
            \<longrightarrow> usage_count st' i = usage_count st i)
    \<and> prefix (map tag_key (tags st)) (map tag_key (tags st'))
    \<and> (\<forall>n \<in> set names. \<exists>t \<in> set (tags st'). varchar 100 n = Inr (tag_name t))"
proof -
  from assms have l: "addTags_loop now aid names st = (None, st')"
    by (auto simp: addTags_def split: prod.splits option.splits)
  note E = addTags_loop_effect [OF l]
  from E have cnt: "usage_count st' i = usage_count st i
            + (if (aid, i) \<in> set (article_tags st') \<and> (aid, i) \<notin> set (article_tags st) then 1 else 0)" for i
    by blast
  from E have own: "\<forall>p \<in> set (article_tags st') - set (article_tags st). fst p = aid"
    by blast
  have a: "\<forall>p \<in> set (article_tags st') - set (article_tags st).
            fst p = aid \<and> usage_count st' (snd p) = usage_count st (snd p) + 1"
  proof
    fix p assume p: "p \<in> set (article_tags st') - set (article_tags st)"
    with own have f: "fst p = aid" by auto
    with p have "(aid, snd p) \<in> set (article_tags st')" "(aid, snd p) \<notin> set (article_tags st)"
      by (cases p; simp)+
    with cnt [of "snd p"] f show "fst p = aid \<and> usage_count st' (snd p) = usage_count st (snd p) + 1"
      by simp
  qed
  have b: "\<forall>i. (aid, i) \<notin> set (article_tags st') - set (article_tags st)
            \<longrightarrow> usage_count st' i = usage_count st i"
    using cnt by auto
  from E have c: "prefix (map tag_key (tags st)) (map tag_key (tags st'))"
    and d: "\<forall>n \<in> set names. \<exists>t \<in> set (tags st'). varchar 100 n = Inr (tag_name t)"
    by blast+
  from a b c d show ?thesis by - (intro conjI; assumption)
qed

theorem addTags_counts_new_associations_witness:
  "fst (addTags 50 1 [''#Foley'', ''Foley'', ''#Foley''] foley_store) = None
   \<and> article_tags (snd (addTags 50 1 [''#Foley'', ''Foley'', ''#Foley''] foley_store))
       = [(1, 1), (1, 3)]
   \<and> usage_count foley_store 1 = 3
   \<and> usage_count (snd (addTags 50 1 [''#Foley'', ''Foley'', ''#Foley''] foley_store)) 1 = 4
   \<and> usage_count (snd (addTags 50 1 [''#Foley'', ''Foley'', ''#Foley''] foley_store)) 3 = 1"
proof -
  let ?r = "addTags 50 1 [''#Foley'', ''Foley'', ''#Foley''] foley_store"
  have f: "fst ?r = None" by code_simp
  then have e: "?r = (None, snd ?r)" by (cases ?r) simp
  have at: "article_tags (snd ?r) = [(1, 1), (1, 3)]" by code_simp
  have at0: "article_tags foley_store = []" by (simp add: foley_store_def)
  have u0: "usage_count foley_store 1 = 3" "usage_count foley_store 3 = 0" by code_simp+
  from addTags_counts_new_associations [OF e]
  have "\<forall>p \<in> set (article_tags (snd ?r)) - set (article_tags foley_store).
          fst p = 1 \<and> usage_count (snd ?r) (snd p) = usage_count foley_store (snd p) + 1"
    by blast
  then have "usage_count (snd ?r) 1 = usage_count foley_store 1 + 1"
    and "usage_count (snd ?r) 3 = usage_count foley_store 3 + 1"
    unfolding at at0 by simp_all
  with f at u0 show ?thesis by simp
qed

subsection \<open>Fetching and truncation in the scrapers\<close>

lemma rss_articleData_fields:
  assumes "rss_articleData rt now item = Inr ad"
  shows "(\<exists>ttl. item_title item = Some ttl \<and> ad_title ad = take 500 ttl)
      \<and> ad_excerpt ad = take 1000 (rss_excerpt item)
      \<and> ad_content ad = Some (rss_content item)"
proof (cases "item_title item")
  case None
  with assms show ?thesis by (simp add: rss_articleData_def Let_def)
next
  case (Some ttl)
  with assms have "ad_title ad = take 500 ttl" "ad_excerpt ad = take 1000 (rss_excerpt item)"
    "ad_content ad = Some (rss_content item)"
    by (auto simp: rss_articleData_def Let_def substring0_def)
  with Some show ?thesis by simp
qed

lemma cheerio_articleData_fields:
  assumes "cheerio_articleData rt now s b = Some ad"
  shows "ad_title ad = take 500 (block_title b)
      \<and> ad_excerpt ad = take 1000 (block_excerpt b)
      \<and> ad_content ad = None"
proof -
  from assms have g: "\<not> (block_title b = [] \<or> length (block_title b) < 10)"
    by (auto simp: cheerio_articleData_def)
  with assms obtain href where h: "block_href b = Some href"
    by (cases "block_href b") (auto simp: cheerio_articleData_def)
  with assms g have n: "href \<noteq> []"
    by (auto simp: cheerio_articleData_def)
  from assms g h n show ?thesis
    by (auto simp: cheerio_articleData_def Let_def substring0_def)
qed

lemma nitter_articleData_fields:
  assumes "nitter_articleData rt now hashtag t = Some ad"
  shows "ad_title ad = (if length (tweet_content t) > 100
                     then take 100 (tweet_content t) @ ''...'' else tweet_content t)
      \<and> ad_excerpt ad = tweet_content t
      \<and> ad_content ad = Some (tweet_content t)"
proof -
  from assms have g: "\<not> (tweet_content t = [] \<or> length (tweet_content t) < 5)"
    by (auto simp: nitter_articleData_def Let_def)
  with assms obtain href where h: "tweet_href t = Some href"
    by (cases "tweet_href t") (auto simp: nitter_articleData_def Let_def)
  with assms g have n: "href \<noteq> []"
    by (auto simp: nitter_articleData_def Let_def)
  from assms g h n show ?thesis
    by (auto simp: nitter_articleData_def Let_def substring0_def)
qed

text \<open>
  Claim C8, as the code has it.  The feed scraper and the page scraper pass as title the first
  500 characters of the extracted title and as excerpt the first 1000 characters of the
  extracted excerpt, nothing being appended; as content the feed scraper passes the item's
  content whole and the page scraper passes none.  The mirror scraper passes the body of the
  post whole as excerpt and as content, and as title the body, or its first 100 characters
  followed by three dots when it is longer than 100 characters.  \<open>saveArticle\<close> hands title,
  excerpt and content to \<open>Article.create\<close> as they are.
\<close>

theorem articleData_truncation:
  "(rss_articleData rt now item = Inr ad\<^sub>f \<longrightarrow>
      (\<exists>ttl. item_title item = Some ttl \<and> ad_title ad\<^sub>f = take 500 ttl)
      \<and> ad_excerpt ad\<^sub>f = take 1000 (rss_excerpt item)
      \<and> ad_content ad\<^sub>f = Some (rss_content item)
      \<and> length (ad_title ad\<^sub>f) \<le> 500 \<and> length (ad_excerpt ad\<^sub>f) \<le> 1000)
   \<and> (cheerio_articleData rt now s b = Some ad\<^sub>p \<longrightarrow>
      ad_title ad\<^sub>p = take 500 (block_title b)
      \<and> ad_excerpt ad\<^sub>p = take 1000 (block_excerpt b)
      \<and> ad_content ad\<^sub>p = None
      \<and> length (ad_title ad\<^sub>p) \<le> 500 \<and> length (ad_excerpt ad\<^sub>p) \<le> 1000)
   \<and> (nitter_articleData rt now hashtag t = Some ad\<^sub>m \<longrightarrow>
      ad_title ad\<^sub>m = (if length (tweet_content t) > 100
                     then take 100 (tweet_content t) @ ''...'' else tweet_content t)
      \<and> length (ad_title ad\<^sub>m) \<le> 103
      \<and> ad_excerpt ad\<^sub>m = tweet_content t
      \<and> ad_content ad\<^sub>m = Some (tweet_content t))
   \<and> title (create_argument s ad published) = Some (ad_title ad)
   \<and> excerpt (create_argument s ad published) = Some (ad_excerpt ad)
   \<and> content (create_argument s ad published) = ad_content ad"
proof (intro conjI impI)
  assume a: "rss_articleData rt now item = Inr ad\<^sub>f"
  note F = rss_articleData_fields [OF a]
  from F show "\<exists>ttl. item_title item = Some ttl \<and> ad_title ad\<^sub>f = take 500 ttl" by blast
  from F show "ad_excerpt ad\<^sub>f = take 1000 (rss_excerpt item)" by blast
  from F show "ad_content ad\<^sub>f = Some (rss_content item)" by blast
  from F show "length (ad_title ad\<^sub>f) \<le> 500" by auto
  from F show "length (ad_excerpt ad\<^sub>f) \<le> 1000" by auto
next
  assume a: "cheerio_articleData rt now s b = Some ad\<^sub>p"
  note F = cheerio_articleData_fields [OF a]
  from F show "ad_title ad\<^sub>p = take 500 (block_title b)" by blast
  from F show "ad_excerpt ad\<^sub>p = take 1000 (block_excerpt b)" by blast
  from F show "ad_content ad\<^sub>p = None" by blast
  from F show "length (ad_title ad\<^sub>p) \<le> 500" by auto
  from F show "length (ad_excerpt ad\<^sub>p) \<le> 1000" by auto
next
  assume a: "nitter_articleData rt now hashtag t = Some ad\<^sub>m"
  note F = nitter_articleData_fields [OF a]
  from F show "ad_title ad\<^sub>m = (if length (tweet_content t) > 100
                     then take 100 (tweet_content t) @ ''...'' else tweet_content t)" by blast
  from F show "length (ad_title ad\<^sub>m) \<le> 103" by auto
  from F show "ad_excerpt ad\<^sub>m = tweet_content t" by blast
  from F show "ad_content ad\<^sub>m = Some (tweet_content t)" by blast
qed (simp_all add: create_argument_def)

theorem articleData_truncation_witness:
  "(\<exists>ad. rss_articleData plain_runtime 7 long_item = Inr ad
         \<and> ad_title ad = ''Council vote'' \<and> ad_excerpt ad = ''Short.''
         \<and> ad_content ad = Some (replicate 1001 (CHR ''a'')))
   \<and> (\<exists>ad. cheerio_articleData plain_runtime 7 page_scraper short_block = Some ad
         \<and> ad_title ad = ''Storm warning issued for coast''
         \<and> ad_excerpt ad = ''A warning is in effect.'' \<and> ad_content ad = None)
   \<and> (\<exists>ad. nitter_articleData plain_runtime 7 ''Foley'' long_tweet = Some ad
         \<and> ad_title ad = replicate 100 (CHR ''a'') @ ''...''
         \<and> ad_excerpt ad = replicate 1001 (CHR ''a''))"
proof -
  let ?f = "rss_articleData plain_runtime 7 long_item"
  let ?p = "cheerio_articleData plain_runtime 7 page_scraper short_block"
  let ?m = "nitter_articleData plain_runtime 7 ''Foley'' long_tweet"
  have "\<not> isl ?f" by (simp add: rss_articleData_def long_item_def Let_def)
  then have f: "?f = Inr (projr ?f)" by (cases ?f) auto
  have "?p \<noteq> None" by (simp add: cheerio_articleData_def short_block_def Let_def)
  then have p: "?p = Some (the ?p)" by auto
  have "?m \<noteq> None" by (simp add: nitter_articleData_def long_tweet_def Let_def)
  then have m: "?m = Some (the ?m)" by auto
  note T = articleData_truncation [of plain_runtime 7 long_item "projr ?f" page_scraper
      short_block "the ?p" "''Foley''" long_tweet "the ?m"]
  have i: "item_title long_item = Some ''Council vote''"
    "rss_excerpt long_item = ''Short.''"
    "rss_content long_item = replicate 1001 (CHR ''a'')"
    by (simp_all add: long_item_def rss_excerpt_def rss_content_def or_else_def js_or_def
        truthy_def)
  have b: "block_title short_block = ''Storm warning issued for coast''"
    "block_excerpt short_block = ''A warning is in effect.''"
    by (simp_all add: short_block_def)
  have t: "tweet_content long_tweet = replicate 1001 (CHR ''a'')"
    by (simp add: long_tweet_def)
  from T f i have "ad_title (projr ?f) = ''Council vote'' \<and> ad_excerpt (projr ?f) = ''Short.''
         \<and> ad_content (projr ?f) = Some (replicate 1001 (CHR ''a''))"
    by auto
  with f have 1: "\<exists>ad. ?f = Inr ad
         \<and> ad_title ad = ''Council vote'' \<and> ad_excerpt ad = ''Short.''
         \<and> ad_content ad = Some (replicate 1001 (CHR ''a''))" by blast
  from T p b have "ad_title (the ?p) = ''Storm warning issued for coast''
         \<and> ad_excerpt (the ?p) = ''A warning is in effect.'' \<and> ad_content (the ?p) = None"
    by auto
  with p have 2: "\<exists>ad. ?p = Some ad
         \<and> ad_title ad = ''Storm warning issued for coast''
         \<and> ad_excerpt ad = ''A warning is in effect.'' \<and> ad_content ad = None" by blast
  from T m t have "ad_title (the ?m) = replicate 100 (CHR ''a'') @ ''...''
         \<and> ad_excerpt (the ?m) = replicate 1001 (CHR ''a'')"
    by auto
  with m have 3: "\<exists>ad. ?m = Some ad
         \<and> ad_title ad = replicate 100 (CHR ''a'') @ ''...''
         \<and> ad_excerpt ad = replicate 1001 (CHR ''a'')" by blast
  from 1 2 3 show ?thesis by - (intro conjI; assumption)
qed

text \<open>
  Claim C8 as stated fails: a feed item whose content has 1001 characters, and a post whose
  body has 1001 characters, reach \<open>saveArticle\<close> with content, and excerpt, above 1000.
\<close>

theorem within_caps_counterexample:
  "\<not> (case rss_articleData plain_runtime 0 long_item of
         Inl e \<Rightarrow> True | Inr ad \<Rightarrow> within_caps ad)
   \<and> \<not> (case nitter_articleData plain_runtime 0 ''Foley'' long_tweet of
         None \<Rightarrow> True | Some ad \<Rightarrow> within_caps ad)"
  by (simp add: rss_articleData_def nitter_articleData_def long_item_def long_tweet_def
      within_caps_def rss_content_def rss_excerpt_def or_else_def js_or_def truthy_def
      substring0_def Let_def)

text \<open>
  Claim C7 as stated fails for the feed scraper: its fetch is the parser library's own request,
  with no request through \<open>fetchHTML\<close> and no sleep.
\<close>

theorem feed_fetch_counterexample:
  "\<not> through_fetcher feed_scraper
       (fst (rss_scrape plain_runtime empty_feed at_noon feed_scraper feed_config
               (empty_store [4])))
       (returned (rss_scrape plain_runtime empty_feed at_noon feed_scraper feed_config
               (empty_store [4])))"
  by (simp add: through_fetcher_def rss_scrape_def empty_feed_def)

lemma fetchHTML_through_fetcher:
  "through_fetcher s (fst (fetchHTML net s u)) (\<exists>data. net u = Inr data)"
  by (cases "net u") (simp_all add: fetchHTML_def through_fetcher_def request_headers_def)

lemma cheerio_scrape_io:
  "fst (cheerio_scrape rt net select clock s st) = fst (fetchHTML net s (sourceUrl s))
   \<and> returned (cheerio_scrape rt net select clock s st) = (\<exists>data. net (sourceUrl s) = Inr data)"
  by (cases "net (sourceUrl s)")
     (simp_all add: cheerio_scrape_def fetchHTML_def returned_def split: prod.splits)

lemma nitter_scrape_io:
  "fst (nitter_scrape rt net select clock s hashtag st) = fst (fetchHTML net s (sourceUrl s))
   \<and> returned (nitter_scrape rt net select clock s hashtag st)
       = (\<exists>data. net (sourceUrl s) = Inr data)"
  by (cases "net (sourceUrl s)")
     (simp_all add: nitter_scrape_def fetchHTML_def returned_def split: prod.splits)

text \<open>
  Claim C7, as the code has it.  The io actions of the page scraper's and of the mirror
  scraper's \<open>scrape()\<close> are those of \<open>fetchHTML\<close> on the source url, and they go through the
  Fetcher: one GET with the scraper's user agent and a timeout of 30000 ms, which ends, when a
  document is returned, with a sleep of the scraper's delay; the agent is the bot
  identification and the delay 2000 ms when the environment sets neither.  The io actions of
  the feed scraper's \<open>scrape()\<close> are the single request of the parser library.
\<close>

theorem fetch_through_fetcher:
  "fst (cheerio_scrape rt net select clock s st) = fst (fetchHTML net s (sourceUrl s))
   \<and> fst (nitter_scrape rt net select' clock s hashtag st) = fst (fetchHTML net s (sourceUrl s))
   \<and> through_fetcher s (fst (cheerio_scrape rt net select clock s st))
        (returned (cheerio_scrape rt net select clock s st))
   \<and> through_fetcher s (fst (nitter_scrape rt net select' clock s hashtag st))
        (returned (nitter_scrape rt net select' clock s hashtag st))
   \<and> (\<forall>data. net u = Inr data \<longrightarrow>
         fst (fetchHTML net s u) = [HttpGet u (request_headers s) 30000, Sleep (delay s)])
   \<and> map_of (request_headers s) ''User-Agent'' = Some (userAgent s)
   \<and> userAgent (BaseScraper \<lparr>SCRAPE_DELAY_MS = d, USER_AGENT = None\<rparr> name cfg)
        = ''BaldwinNewsBot/1.0 (+https://baldwincountynews.com/about)''
   \<and> delay (BaseScraper \<lparr>SCRAPE_DELAY_MS = None, USER_AGENT = a\<rparr> name cfg) = 2000
   \<and> fst (rss_scrape rt feed clock s cfg st) = [ParseURL (rssUrl cfg)]"
proof -
  have 1: "fst (cheerio_scrape rt net select clock s st) = fst (fetchHTML net s (sourceUrl s))"
    and 3: "through_fetcher s (fst (cheerio_scrape rt net select clock s st))
        (returned (cheerio_scrape rt net select clock s st))"
    using cheerio_scrape_io [of rt net select clock s st]
      fetchHTML_through_fetcher [of s net "sourceUrl s"] by simp_all
  have 2: "fst (nitter_scrape rt net select' clock s hashtag st)
             = fst (fetchHTML net s (sourceUrl s))"
    and 4: "through_fetcher s (fst (nitter_scrape rt net select' clock s hashtag st))
        (returned (nitter_scrape rt net select' clock s hashtag st))"
    using nitter_scrape_io [of rt net select' clock s hashtag st]
      fetchHTML_through_fetcher [of s net "sourceUrl s"] by simp_all
  have 5: "\<forall>data. net u = Inr data \<longrightarrow>
         fst (fetchHTML net s u) = [HttpGet u (request_headers s) 30000, Sleep (delay s)]"
    by (simp add: fetchHTML_def)
  have 6: "map_of (request_headers s) ''User-Agent'' = Some (userAgent s)"
    by (simp add: request_headers_def)
  have 7: "userAgent (BaseScraper \<lparr>SCRAPE_DELAY_MS = d, USER_AGENT = None\<rparr> name cfg)
        = ''BaldwinNewsBot/1.0 (+https://baldwincountynews.com/about)''"
    and 8: "delay (BaseScraper \<lparr>SCRAPE_DELAY_MS = None, USER_AGENT = a\<rparr> name cfg) = 2000"
    by (simp_all add: BaseScraper_def or_else_def)
  have 9: "fst (rss_scrape rt feed clock s cfg st) = [ParseURL (rssUrl cfg)]"
    by (cases "feed (rssUrl cfg)") (simp_all add: rss_scrape_def split: prod.splits)
  from 1 2 3 4 5 6 7 8 9 show ?thesis by - (intro conjI; assumption)
qed

theorem fetch_through_fetcher_witness:
  "answering ''https://www.baldwintimes.com'' = Inr ''<html></html>''
   \<and> fst (cheerio_scrape plain_runtime answering no_blocks at_noon page_scraper (empty_store [1]))
       = [HttpGet ''https://www.baldwintimes.com'' (request_headers page_scraper) 30000,
          Sleep 2000]
   \<and> map_of (request_headers page_scraper) ''User-Agent''
       = Some ''BaldwinNewsBot/1.0 (+https://baldwincountynews.com/about)''"
proof -
  note T = fetch_through_fetcher [of plain_runtime answering no_blocks at_noon page_scraper
      "empty_store [1]" _ _ "sourceUrl page_scraper" None "''Baldwin Times''" page_config None]
  have u: "sourceUrl page_scraper = ''https://www.baldwintimes.com''"
    by (simp add: page_scraper_def page_config_def BaseScraper_def)
  have r: "answering (sourceUrl page_scraper) = Inr ''<html></html>''"
    by (simp add: answering_def)
  have d: "delay page_scraper = 2000"
    using T by (simp add: page_scraper_def default_environment_def)
  have a: "userAgent page_scraper = ''BaldwinNewsBot/1.0 (+https://baldwincountynews.com/about)''"
    using T by (simp add: page_scraper_def default_environment_def)
  from T r have "fst (cheerio_scrape plain_runtime answering no_blocks at_noon page_scraper
                   (empty_store [1]))
      = [HttpGet (sourceUrl page_scraper) (request_headers page_scraper) 30000,
         Sleep (delay page_scraper)]" by simp
  with u d have "fst (cheerio_scrape plain_runtime answering no_blocks at_noon page_scraper
                   (empty_store [1]))
       = [HttpGet ''https://www.baldwintimes.com'' (request_headers page_scraper) 30000,
          Sleep 2000]" by simp
  moreover from T a have "map_of (request_headers page_scraper) ''User-Agent''
       = Some ''BaldwinNewsBot/1.0 (+https://baldwincountynews.com/about)''" by simp
  moreover from r u have "answering ''https://www.baldwintimes.com'' = Inr ''<html></html>''"
    by simp
  ultimately show ?thesis by - (intro conjI; assumption)
qed

section \<open>The orchestration loop\<close>

lemma cap_reached_update [simp]:
  "cap_reached cap (rs\<lparr>successful := a\<rparr>) = cap_reached cap rs"
  "cap_reached cap (rs\<lparr>failed := b\<rparr>) = cap_reached cap rs"
  "cap_reached cap (rs\<lparr>details := c\<rparr>) = cap_reached cap rs"
  by (simp_all add: cap_reached_def split: option.splits)

lemma exec_0 [simp]: "exec cap 0 r = r"
  by (simp add: exec_def)

lemma exec_Suc: "exec cap (Suc k) r = resume cap (exec cap k r)"
  by (simp add: exec_def)

lemma exec_add: "exec cap (k + l) r = exec cap k (exec cap l r)"
  by (simp add: exec_def funpow_add)

lemma resume_settled: "settled r \<Longrightarrow> resume cap r = r"
  by (auto simp: settled_def resume_def split: pc.splits list.splits)

lemma exec_settled: "settled r \<Longrightarrow> exec cap k r = r"
  by (induction k) (simp_all add: exec_Suc resume_settled)

lemma advance_tally:
  "total (res r) = length ds + length js
   \<Longrightarrow> successful (res r) + failed (res r) = length ds
   \<Longrightarrow> \<exists>ds'. tally_inv cap ds' (advance r js) \<and> ds' @ todo (advance r js) = ds @ js"
proof (induction js arbitrary: r ds)
  case Nil
  then show ?case by (simp add: tally_inv_def)
next
  case (Cons j js)
  show ?case
  proof (cases "job_scraper j")
    case None
    let ?r = "r\<lparr>res := (res r)\<lparr>failed := failed (res r) + 1\<rparr>\<rparr>"
    from Cons.prems have "total (res ?r) = length (ds @ [j]) + length js"
      "successful (res ?r) + failed (res ?r) = length (ds @ [j])" by simp_all
    from Cons.IH [OF this] None show ?thesis by simp
  next
    case (Some s)
    with Cons.prems show ?thesis by (auto simp: tally_inv_def)
  qed
qed

lemma resume_tally:
  assumes "tally_inv cap ds r" and "\<forall>j \<in> set (todo r). smooth (job_attempt j)"
  shows "\<exists>ds'. tally_inv cap ds' (resume cap r) \<and> ds' @ todo (resume cap r) = ds @ todo r"
proof (cases "todo r")
  case Nil
  with assms show ?thesis by (auto simp: resume_def)
next
  case (Cons j js)
  with assms(2) have sm: "on_touch_success (job_attempt j) = None" "on_count (job_attempt j) = None"
    by (simp_all add: smooth_def)
  show ?thesis
  proof (cases "pc r")
    case AwaitTouch
    with assms Cons show ?thesis
      by (auto simp: resume_def tally_inv_def enter_catch_def split: option.splits)
  next
    case AwaitScrape
    with assms Cons show ?thesis
      by (auto simp: resume_def tally_inv_def enter_catch_def leave_try_def split: sum.splits)
  next
    case (AwaitTouchSuccess n)
    with assms Cons sm show ?thesis
      by (auto simp: resume_def tally_inv_def)
  next
    case (AwaitCount n)
    with assms Cons sm show ?thesis
      by (auto simp: resume_def tally_inv_def leave_try_def)
  next
    case (AwaitError m n)
    with assms Cons show ?thesis
      by (auto simp: resume_def tally_inv_def split: option.splits)
  next
    case (AwaitLog st n em)
    show ?thesis
    proof (cases "on_log (job_attempt j)")
      case (Some m')
      with assms Cons AwaitLog show ?thesis
        by (auto simp: resume_def tally_inv_def)
    next
      case None
      let ?r = "r\<lparr>queries := queries r @ [LogScrape (job_id j) st n (elapsed (job_attempt j)) em],
                    res := (res r)\<lparr>details := details (res r)
                           @ [\<lparr>detail_source = job_name j, detail_status = st,
                                detail_articles = n, detail_duration = elapsed (job_attempt j),
                                detail_error = em\<rparr>]\<rparr>\<rparr>"
      from assms(1) Cons AwaitLog have "total (res ?r) = length (ds @ [j]) + length js"
        "successful (res ?r) + failed (res ?r) = length (ds @ [j])"
        by (simp_all add: tally_inv_def)
      from advance_tally [OF this, of cap] obtain ds' where
        "tally_inv cap ds' (advance ?r js)" "ds' @ todo (advance ?r js) = (ds @ [j]) @ js" by blast
      moreover have "resume cap r = advance ?r js"
        using Cons AwaitLog None by (simp add: resume_def)
      ultimately show ?thesis using Cons by auto
    qed
  next
    case Returned
    with assms Cons show ?thesis by (auto simp: resume_def)
  next
    case (Thrown m)
    with assms Cons show ?thesis by (auto simp: resume_def)
  qed
qed

lemma exec_tally:
  assumes "tally_inv cap ds r" and "\<forall>j \<in> set (ds @ todo r). smooth (job_attempt j)"
  shows "\<exists>ds'. tally_inv cap ds' (exec cap k r) \<and> ds' @ todo (exec cap k r) = ds @ todo r"
proof (induction k)
  case 0
  from assms show ?case by auto
next
  case (Suc k)
  then obtain ds' where d: "tally_inv cap ds' (exec cap k r)" "ds' @ todo (exec cap k r) = ds @ todo r"
    by blast
  from assms(2) have "\<forall>j \<in> set (ds' @ todo (exec cap k r)). smooth (job_attempt j)"
    unfolding d(2) .
  then have "\<forall>j \<in> set (todo (exec cap k r)). smooth (job_attempt j)" by simp
  from resume_tally [OF d(1) this] d(2) show ?case
    by (auto simp: exec_Suc)
qed

lemma start_tally:
  "\<exists>ds'. tally_inv cap ds' (start (length jobs) jobs) \<and> ds' @ todo (start (length jobs) jobs) = jobs"
  using advance_tally [of "\<lparr>pc = Returned, todo = jobs,
              res = \<lparr>total = length jobs, successful = 0, failed = 0, found = 0, details = []\<rparr>,
              queries = []\<rparr>" "[]" jobs cap]
  by (simp add: start_def)

lemma tally_le: "tally_inv cap ds r \<Longrightarrow> successful (res r) + failed (res r) \<le> total (res r)"
  by (cases "todo r") (auto simp: tally_inv_def split: pc.splits if_splits)


subsection \<open>Settling\<close>

lemma advance_steps_left:
  "steps_left (advance r js) \<le> 6 * length js
   \<and> (\<not> settled (advance r js) \<longrightarrow> todo (advance r js) \<noteq> [])"
proof (induction js arbitrary: r)
  case Nil
  then show ?case by (simp add: steps_left_def settled_def)
next
  case (Cons j js)
  show ?case
  proof (cases "job_scraper j")
    case None
    with Cons [of "r\<lparr>res := (res r)\<lparr>failed := failed (res r) + 1\<rparr>\<rparr>"] show ?thesis by simp
  next
    case (Some s)
    then show ?thesis by (simp add: steps_left_def settled_def rank_def)
  qed
qed

lemma resume_steps_left:
  assumes "\<not> settled r" and "todo r \<noteq> []"
  shows "steps_left (resume cap r) < steps_left r
    \<and> (\<not> settled (resume cap r) \<longrightarrow> todo (resume cap r) \<noteq> [])"
proof -
  from assms(2) obtain j js where t: "todo r = j # js" by (cases "todo r") auto
  show ?thesis
  proof (cases "pc r")
    case (AwaitLog st n em)
    show ?thesis
    proof (cases "on_log (job_attempt j)")
      case None
      let ?r = "r\<lparr>queries := queries r @ [LogScrape (job_id j) st n (elapsed (job_attempt j)) em],
                    res := (res r)\<lparr>details := details (res r)
                           @ [\<lparr>detail_source = job_name j, detail_status = st,
                                detail_articles = n, detail_duration = elapsed (job_attempt j),
                                detail_error = em\<rparr>]\<rparr>\<rparr>"
      have e: "resume cap r = advance ?r js" using t AwaitLog None by (simp add: resume_def)
      from advance_steps_left [of ?r js] t AwaitLog show ?thesis
        unfolding e by (simp add: steps_left_def settled_def rank_def)
    next
      case (Some m')
      with t AwaitLog show ?thesis
        by (simp add: resume_def steps_left_def settled_def rank_def)
    qed
  qed (use assms t in \<open>auto simp: resume_def steps_left_def settled_def rank_def enter_catch_def
         leave_try_def split: option.splits sum.splits\<close>)
qed

lemma exec_settles:
  "(\<not> settled r \<longrightarrow> todo r \<noteq> []) \<Longrightarrow> steps_left r \<le> k \<Longrightarrow> settled (exec cap k r)"
proof (induction k arbitrary: r)
  case 0
  then show ?case by (auto simp: steps_left_def rank_def settled_def split: if_splits pc.splits)
next
  case (Suc k)
  show ?case
  proof (cases "settled r")
    case True
    then show ?thesis by (simp add: exec_settled)
  next
    case False
    with Suc.prems have t: "todo r \<noteq> []" by simp
    from resume_steps_left [OF False t, of cap] Suc.prems(2)
    have "\<not> settled (resume cap r) \<longrightarrow> todo (resume cap r) \<noteq> []"
      and "steps_left (resume cap r) \<le> k" by auto
    from Suc.IH [OF this] show ?thesis
      by (simp add: exec_def funpow_swap1)
  qed
qed

lemma start_settles: "settled (exec cap (6 * length jobs) (start n jobs))"
  using advance_steps_left [of "\<lparr>pc = Returned, todo = jobs,
              res = \<lparr>total = n, successful = 0, failed = 0, found = 0, details = []\<rparr>,
              queries = []\<rparr>" jobs]
  by (intro exec_settles) (simp_all add: start_def)

subsection \<open>Details only grow\<close>

lemma advance_details: "details (res (advance r js)) = details (res r)"
  by (induction js arbitrary: r) (auto split: option.splits)

lemma resume_details: "prefix (details (res r)) (details (res (resume cap r)))"
  by (auto simp: resume_def enter_catch_def leave_try_def advance_details
      split: list.splits pc.splits option.splits sum.splits)

lemma exec_details_mono:
  "l \<le> k \<Longrightarrow> prefix (details (res (exec cap l r))) (details (res (exec cap k r)))"
proof (induction k)
  case 0
  then show ?case by simp
next
  case (Suc k)
  show ?case
  proof (cases "l = Suc k")
    case True
    then show ?thesis by simp
  next
    case False
    with Suc have "prefix (details (res (exec cap l r))) (details (res (exec cap k r)))" by simp
    moreover have "prefix (details (res (exec cap k r))) (details (res (exec cap (Suc k) r)))"
      by (simp add: exec_Suc resume_details)
    ultimately show ?thesis by (rule prefix_order.order_trans)
  qed
qed


subsection \<open>Ledger\<close>

lemma advance_ledger:
  "total (res r) = length ds + length js
   \<Longrightarrow> length (filter unknown ds) \<le> failed (res r)
   \<Longrightarrow> length (details (res r)) + length (filter unknown ds) \<le> successful (res r) + failed (res r)
   \<Longrightarrow> length (details (res r)) + length (filter unknown ds) \<le> length ds
   \<Longrightarrow> \<exists>ds'. ledger_inv cap ds' (advance r js) \<and> ds' @ todo (advance r js) = ds @ js"
proof (induction js arbitrary: r ds)
  case Nil
  then show ?case by (simp add: ledger_inv_def settled_def counted_def)
next
  case (Cons j js)
  show ?case
  proof (cases "job_scraper j")
    case None
    let ?r = "r\<lparr>res := (res r)\<lparr>failed := failed (res r) + 1\<rparr>\<rparr>"
    from None have u: "unknown j" by (simp add: unknown_def)
    from Cons.prems u have "total (res ?r) = length (ds @ [j]) + length js"
      "length (filter unknown (ds @ [j])) \<le> failed (res ?r)"
      "length (details (res ?r)) + length (filter unknown (ds @ [j]))
         \<le> successful (res ?r) + failed (res ?r)"
      "length (details (res ?r)) + length (filter unknown (ds @ [j])) \<le> length (ds @ [j])"
      by simp_all
    from Cons.IH [OF this] None show ?thesis by simp
  next
    case (Some s)
    then have "\<not> unknown j" by (simp add: unknown_def)
    with Cons.prems Some show ?thesis
      by (auto simp: ledger_inv_def settled_def counted_def)
  qed
qed

lemma resume_ledger:
  assumes "ledger_inv cap ds r"
  shows "\<exists>ds'. ledger_inv cap ds' (resume cap r) \<and> ds' @ todo (resume cap r) = ds @ todo r"
proof (cases "todo r")
  case Nil
  with assms show ?thesis by (auto simp: resume_def)
next
  case (Cons j js)
  show ?thesis
  proof (cases "pc r")
    case AwaitTouch
    with assms Cons show ?thesis
      by (auto simp: resume_def ledger_inv_def enter_catch_def settled_def counted_def
          split: option.splits)
  next
    case AwaitScrape
    with assms Cons show ?thesis
      by (auto simp: resume_def ledger_inv_def enter_catch_def leave_try_def settled_def
          counted_def split: sum.splits)
  next
    case (AwaitTouchSuccess n)
    with assms Cons show ?thesis
      by (auto simp: resume_def ledger_inv_def enter_catch_def settled_def counted_def
          split: option.splits)
  next
    case (AwaitCount n)
    with assms Cons show ?thesis
      by (auto simp: resume_def ledger_inv_def enter_catch_def leave_try_def settled_def
          counted_def split: option.splits)
  next
    case (AwaitError m n)
    with assms Cons show ?thesis
      by (auto simp: resume_def ledger_inv_def settled_def counted_def split: option.splits)
  next
    case (AwaitLog st n em)
    show ?thesis
    proof (cases "on_log (job_attempt j)")
      case (Some m')
      with assms Cons AwaitLog show ?thesis
        by (auto simp: resume_def ledger_inv_def settled_def counted_def)
    next
      case None
      let ?r = "r\<lparr>queries := queries r @ [LogScrape (job_id j) st n (elapsed (job_attempt j)) em],
                    res := (res r)\<lparr>details := details (res r)
                           @ [\<lparr>detail_source = job_name j, detail_status = st,
                                detail_articles = n, detail_duration = elapsed (job_attempt j),
                                detail_error = em\<rparr>]\<rparr>\<rparr>"
      from assms Cons AwaitLog have k: "\<not> unknown j"
        by (simp add: ledger_inv_def settled_def)
      from assms Cons AwaitLog k have "total (res ?r) = length (ds @ [j]) + length js"
        "length (filter unknown (ds @ [j])) \<le> failed (res ?r)"
        "length (details (res ?r)) + length (filter unknown (ds @ [j]))
           \<le> successful (res ?r) + failed (res ?r)"
        "length (details (res ?r)) + length (filter unknown (ds @ [j])) \<le> length (ds @ [j])"
        by (simp_all add: ledger_inv_def counted_def)
      from advance_ledger [OF this, of cap] obtain ds' where
        "ledger_inv cap ds' (advance ?r js)" "ds' @ todo (advance ?r js) = (ds @ [j]) @ js" by blast
      moreover have "resume cap r = advance ?r js"
        using Cons AwaitLog None by (simp add: resume_def)
      ultimately show ?thesis using Cons by auto
    qed
  next
    case Returned
    with assms Cons show ?thesis by (auto simp: resume_def)
  next
    case (Thrown m)
    with assms Cons show ?thesis by (auto simp: resume_def)
  qed
qed

lemma exec_ledger:
  assumes "ledger_inv cap ds r"
  shows "\<exists>ds'. ledger_inv cap ds' (exec cap k r) \<and> ds' @ todo (exec cap k r) = ds @ todo r"
proof (induction k)
  case 0
  from assms show ?case by auto
next
  case (Suc k)
  then obtain ds' where d: "ledger_inv cap ds' (exec cap k r)"
    "ds' @ todo (exec cap k r) = ds @ todo r" by blast
  from resume_ledger [OF d(1)] d(2) show ?case by (auto simp: exec_Suc)
qed

lemma start_ledger:
  "\<exists>ds'. ledger_inv cap ds' (start (length jobs) jobs)
         \<and> ds' @ todo (start (length jobs) jobs) = jobs"
  using advance_ledger [of "\<lparr>pc = Returned, todo = jobs,
              res = \<lparr>total = length jobs, successful = 0, failed = 0, found = 0, details = []\<rparr>,
              queries = []\<rparr>" "[]" jobs cap]
  by (simp add: start_def)

subsection \<open>Origin of details and log rows\<close>

lemma origin_mono: "origin_inv ds r \<Longrightarrow> origin_inv (ds @ es) r"
  by (fastforce simp: origin_inv_def)

lemma advance_queries: "queries (advance r js) = queries r"
  by (induction js arbitrary: r) (auto split: option.splits)

lemma advance_origin:
  "origin_inv ds r \<Longrightarrow> \<exists>ds'. origin_inv ds' (advance r js) \<and> ds' @ todo (advance r js) = ds @ js"
proof (induction js arbitrary: r ds)
  case Nil
  then show ?case by (simp add: origin_inv_def)
next
  case (Cons j js)
  show ?case
  proof (cases "job_scraper j")
    case None
    let ?r = "r\<lparr>res := (res r)\<lparr>failed := failed (res r) + 1\<rparr>\<rparr>"
    from Cons.prems have "origin_inv ds ?r" by (simp add: origin_inv_def)
    then have "origin_inv (ds @ [j]) ?r" by (rule origin_mono)
    from Cons.IH [OF this] None show ?thesis by simp
  next
    case (Some s)
    with Cons.prems show ?thesis by (auto simp: origin_inv_def)
  qed
qed

lemma resume_origin:
  assumes "origin_inv ds r" and "\<not> settled r \<longrightarrow> todo r \<noteq> [] \<and> \<not> unknown (hd (todo r))"
  shows "\<exists>ds'. origin_inv ds' (resume cap r) \<and> ds' @ todo (resume cap r) = ds @ todo r"
proof (cases "todo r")
  case Nil
  with assms show ?thesis by (auto simp: resume_def)
next
  case (Cons j js)
  show ?thesis
  proof (cases "pc r")
    case (AwaitLog st n em)
    show ?thesis
    proof (cases "on_log (job_attempt j)")
      case (Some m')
      with assms Cons AwaitLog show ?thesis
        by (auto simp: resume_def origin_inv_def)
    next
      case None
      let ?r = "r\<lparr>queries := queries r @ [LogScrape (job_id j) st n (elapsed (job_attempt j)) em],
                    res := (res r)\<lparr>details := details (res r)
                           @ [\<lparr>detail_source = job_name j, detail_status = st,
                                detail_articles = n, detail_duration = elapsed (job_attempt j),
                                detail_error = em\<rparr>]\<rparr>\<rparr>"
      from assms(2) Cons AwaitLog have k: "\<not> unknown j" by (simp add: settled_def)
      from origin_mono [OF assms(1), of "[j]"] k have "origin_inv (ds @ [j]) ?r"
        by (auto simp: origin_inv_def logged_def)
      from advance_origin [OF this] obtain ds' where
        "origin_inv ds' (advance ?r js)" "ds' @ todo (advance ?r js) = (ds @ [j]) @ js" by blast
      moreover have "resume cap r = advance ?r js"
        using Cons AwaitLog None by (simp add: resume_def)
      ultimately show ?thesis using Cons by auto
    qed
  qed (use assms Cons in \<open>auto simp: resume_def origin_inv_def enter_catch_def leave_try_def
         logged_def split: option.splits sum.splits\<close>)
qed


lemma same_rest: "a @ t = x \<Longrightarrow> b @ t = x \<Longrightarrow> a = b"
  by auto

lemma exec_ledger_origin:
  assumes "ledger_inv cap ds r" and "origin_inv ds r"
  shows "\<exists>ds'. ledger_inv cap ds' (exec cap k r) \<and> origin_inv ds' (exec cap k r)
           \<and> ds' @ todo (exec cap k r) = ds @ todo r"
proof (induction k)
  case 0
  from assms show ?case by auto
next
  case (Suc k)
  then obtain ds' where d: "ledger_inv cap ds' (exec cap k r)" "origin_inv ds' (exec cap k r)"
    "ds' @ todo (exec cap k r) = ds @ todo r" by blast
  from d(1) have w: "\<not> settled (exec cap k r)
      \<longrightarrow> todo (exec cap k r) \<noteq> [] \<and> \<not> unknown (hd (todo (exec cap k r)))"
    by (simp add: ledger_inv_def)
  from resume_ledger [OF d(1)] obtain d1 where
    1: "ledger_inv cap d1 (resume cap (exec cap k r))"
      "d1 @ todo (resume cap (exec cap k r)) = ds' @ todo (exec cap k r)" by blast
  from resume_origin [OF d(2) w, of cap] obtain d2 where
    2: "origin_inv d2 (resume cap (exec cap k r))"
      "d2 @ todo (resume cap (exec cap k r)) = ds' @ todo (exec cap k r)" by blast
  from 1(2) 2(2) have "d1 = d2" by (rule same_rest)
  with 1 2 d(3) show ?case by (auto simp: exec_Suc)
qed

lemma start_origin:
  "\<exists>ds'. origin_inv ds' (start n jobs) \<and> ds' @ todo (start n jobs) = jobs"
  using advance_origin [of "[]" "\<lparr>pc = Returned, todo = jobs,
              res = \<lparr>total = n, successful = 0, failed = 0, found = 0, details = []\<rparr>,
              queries = []\<rparr>" jobs]
  by (simp add: start_def origin_inv_def)

subsection \<open>The limit\<close>

lemma yields_simps [simp]:
  "yields [] = 0" "yields (ds @ [j]) = yields ds + yield j"
  by (simp_all add: yields_def)

lemma yields_append: "yields (ds @ es) = yields ds + yields es"
  by (simp add: yields_def)

lemma cap_reached_Some [simp]:
  "cap_reached (Some N) rs = (N \<noteq> 0 \<and> N \<le> int (found rs))"
  by (simp add: cap_reached_def)

lemma yield_unknown: "job_scraper j = None \<Longrightarrow> yield j = 0"
  by (simp add: yield_def)

lemma advance_cap:
  "found (res r) = yields ds \<Longrightarrow> int (yields ds) < N
   \<Longrightarrow> \<exists>ds'. cap_inv N ds' (advance r js) \<and> ds' @ todo (advance r js) = ds @ js"
proof (induction js arbitrary: r ds)
  case Nil
  then show ?case by (simp add: cap_inv_def)
next
  case (Cons j js)
  show ?case
  proof (cases "job_scraper j")
    case None
    let ?r = "r\<lparr>res := (res r)\<lparr>failed := failed (res r) + 1\<rparr>\<rparr>"
    from Cons.prems None have "found (res ?r) = yields (ds @ [j])" "int (yields (ds @ [j])) < N"
      by (simp_all add: yield_unknown)
    from Cons.IH [OF this] None show ?thesis by simp
  next
    case (Some s)
    then have "\<not> unknown j" by (simp add: unknown_def)
    with Cons.prems Some show ?thesis by (auto simp: cap_inv_def)
  qed
qed

lemma resume_cap:
  assumes "cap_inv N ds r" and "0 < N" and "\<forall>j \<in> set (todo r). smooth (job_attempt j)"
  shows "\<exists>ds'. cap_inv N ds' (resume (Some N) r)
           \<and> ds' @ todo (resume (Some N) r) = ds @ todo r"
proof (cases "todo r")
  case Nil
  with assms show ?thesis by (auto simp: resume_def)
next
  case (Cons j js)
  with assms(3) have sm: "on_touch_success (job_attempt j) = None" "on_count (job_attempt j) = None"
    by (simp_all add: smooth_def)
  show ?thesis
  proof (cases "pc r")
    case AwaitTouch
    with assms Cons show ?thesis
      by (auto simp: resume_def cap_inv_def enter_catch_def yield_def unknown_def
          split: option.splits)
  next
    case AwaitScrape
    with assms Cons show ?thesis
      by (auto simp: resume_def cap_inv_def enter_catch_def leave_try_def yield_def unknown_def
          split: sum.splits option.splits)
  next
    case (AwaitTouchSuccess n)
    with assms Cons sm show ?thesis
      by (auto simp: resume_def cap_inv_def)
  next
    case (AwaitCount n)
    with assms Cons sm show ?thesis
      by (auto simp: resume_def cap_inv_def leave_try_def)
  next
    case (AwaitError m n)
    with assms Cons show ?thesis
      by (auto simp: resume_def cap_inv_def split: option.splits)
  next
    case (AwaitLog st n em)
    show ?thesis
    proof (cases "on_log (job_attempt j)")
      case (Some m')
      with assms Cons AwaitLog show ?thesis
        by (auto simp: resume_def cap_inv_def)
    next
      case None
      let ?r = "r\<lparr>queries := queries r @ [LogScrape (job_id j) st n (elapsed (job_attempt j)) em],
                    res := (res r)\<lparr>details := details (res r)
                           @ [\<lparr>detail_source = job_name j, detail_status = st,
                                detail_articles = n, detail_duration = elapsed (job_attempt j),
                                detail_error = em\<rparr>]\<rparr>\<rparr>"
      from assms(1) Cons AwaitLog have "found (res ?r) = yields (ds @ [j])"
        "int (yields (ds @ [j])) < N"
        by (simp_all add: cap_inv_def)
      from advance_cap [OF this] obtain ds' where
        "cap_inv N ds' (advance ?r js)" "ds' @ todo (advance ?r js) = (ds @ [j]) @ js" by blast
      moreover have "resume (Some N) r = advance ?r js"
        using Cons AwaitLog None by (simp add: resume_def)
      ultimately show ?thesis using Cons by auto
    qed
  next
    case Returned
    with assms Cons show ?thesis by (auto simp: resume_def)
  next
    case (Thrown m)
    with assms Cons show ?thesis by (auto simp: resume_def)
  qed
qed

lemma exec_cap:
  assumes "cap_inv N ds r" and "0 < N" and "\<forall>j \<in> set (ds @ todo r). smooth (job_attempt j)"
  shows "\<exists>ds'. cap_inv N ds' (exec (Some N) k r) \<and> ds' @ todo (exec (Some N) k r) = ds @ todo r"
proof (induction k)
  case 0
  from assms show ?case by auto
next
  case (Suc k)
  then obtain ds' where d: "cap_inv N ds' (exec (Some N) k r)"
    "ds' @ todo (exec (Some N) k r) = ds @ todo r" by blast
  from assms(3) have "\<forall>j \<in> set (ds' @ todo (exec (Some N) k r)). smooth (job_attempt j)"
    unfolding d(2) .
  then have "\<forall>j \<in> set (todo (exec (Some N) k r)). smooth (job_attempt j)" by simp
  from resume_cap [OF d(1) assms(2) this] d(2) show ?case
    by (auto simp: exec_Suc)
qed

lemma start_cap:
  "0 < N \<Longrightarrow> \<exists>ds'. cap_inv N ds' (start n jobs) \<and> ds' @ todo (start n jobs) = jobs"
  using advance_cap [of "\<lparr>pc = Returned, todo = jobs,
              res = \<lparr>total = n, successful = 0, failed = 0, found = 0, details = []\<rparr>,
              queries = []\<rparr>" "[]" N jobs]
  by (simp add: start_def)

subsection \<open>The lists of iterations\<close>

lemma take_enumerate: "take n (enumerate k xs) = enumerate k (take n xs)"
  by (induction xs arbitrary: n k) (auto simp: take_Cons split: nat.splits)

lemma length_all_jobs [simp]: "length (all_jobs world scs) = length scs"
  by (simp add: all_jobs_def)

lemma length_selected_jobs [simp]: "length (selected_jobs world scs sids) = length sids"
  by (simp add: selected_jobs_def)

lemma take_selected_jobs:
  "take n (selected_jobs world scs sids) = selected_jobs world scs (take n sids)"
  by (simp add: selected_jobs_def take_map take_enumerate)

lemma all_jobs_attempt: "j \<in> set (all_jobs world scs) \<Longrightarrow> \<exists>i. job_attempt j = world i"
  by (auto simp: all_jobs_def)

lemma selected_jobs_attempt:
  "j \<in> set (selected_jobs world scs sids) \<Longrightarrow> \<exists>i. job_attempt j = world i"
  by (auto simp: selected_jobs_def)

lemma selected_jobs_member:
  "j \<in> set (selected_jobs world scs sids)
   \<Longrightarrow> job_id j \<in> set sids \<and> job_scraper j = map_of scs (job_id j)"
  by (auto simp: selected_jobs_def in_set_enumerate_eq)

lemma unknown_selected_jobs_aux:
  "length (filter unknown
       (map (\<lambda>(i, sid). \<lparr>job_id = sid, job_scraper = map_of scs sid, job_attempt = world i\<rparr>)
          (enumerate k sids)))
   = length (unregistered scs sids)"
  by (induction sids arbitrary: k) (auto simp: unregistered_def unknown_def)

lemma unknown_selected_jobs:
  "length (filter unknown (selected_jobs world scs sids)) = length (unregistered scs sids)"
  unfolding selected_jobs_def by (rule unknown_selected_jobs_aux)

lemma cap_reached_report [simp]: "cap_reached cap (report_of rs t) = cap_reached cap rs"
  by (simp add: cap_reached_def report_of_def split: option.splits)

lemma report_of_simps [simp]:
  "total (report_of rs t) = total rs" "successful (report_of rs t) = successful rs"
  "failed (report_of rs t) = failed rs" "found (report_of rs t) = found rs"
  "details (report_of rs t) = details rs" "timedOut (report_of rs t) = t"
  by (simp_all add: report_of_def)

subsection \<open>What a finished call says about its loop\<close>

lemma race_result_Done:
  "race_result m r = (Done (report_of (res r) (pc r \<noteq> Returned)), m\<lparr>isRunning := False\<rparr>, Some r)"
  by (simp add: race_result_def split: pc.splits)

lemma scrapeSelected_Done:
  assumes "scrapeSelected world m sids timeout cap expiry = (Done rep, m', Some r)"
  shows "\<not> isRunning m
    \<and> (\<exists>k. r = exec cap k (start (length sids) (selected_jobs world (scrapers m) sids)))
    \<and> rep = report_of (res r) (pc r \<noteq> Returned) \<and> m' = m\<lparr>isRunning := False\<rparr>"
proof -
  let ?init = "start (length sids) (selected_jobs world (scrapers m) sids)"
  from assms have n: "\<not> isRunning m"
    by (auto simp: scrapeSelected_def split: if_splits)
  show ?thesis
  proof (cases "timeout \<noteq> None \<and> timeout \<noteq> Some 0")
    case True
    show ?thesis
    proof (cases expiry)
      case None
      with assms n True race_result_Done [of m "exec cap (6 * length sids) ?init"]
      show ?thesis by (auto simp: scrapeSelected_def Let_def)
    next
      case (Some k)
      with assms n True race_result_Done [of m "exec cap k ?init"]
      show ?thesis by (auto simp: scrapeSelected_def Let_def)
    qed
  next
    case False
    with assms n show ?thesis
      by (auto simp: scrapeSelected_def Let_def split: pc.splits)
  qed
qed

lemma scrapeAll_Done:
  assumes "scrapeAll world m = (Done rep, m', r')"
  shows "\<not> isRunning m
    \<and> (\<exists>r. r' = Some r \<and> pc r = Returned \<and> rep = report_of (res r) False
          \<and> r = exec None (6 * length (scrapers m))
                  (start (length (scrapers m)) (all_jobs world (scrapers m))))
    \<and> m' = m\<lparr>isRunning := False\<rparr>"
  using assms by (auto simp: scrapeAll_def Let_def split: if_splits pc.splits)

lemma scrapeSelected_Done':
  assumes "scrapeSelected world m sids timeout cap expiry = (Done rep, m', r')"
  shows "\<exists>r. r' = Some r"
  using assms
  by (auto simp: scrapeSelected_def race_result_def Let_def split: if_splits option.splits pc.splits)

lemma yields_prefix: "prefix p ds \<Longrightarrow> yields p \<le> yields ds"
  by (auto simp: prefix_def yields_append)

lemma calls_settle:
  "fst (scrapeAll world m) \<noteq> Pending
   \<and> fst (scrapeSelected world m sids timeout cap expiry) \<noteq> Pending"
proof -
  have a: "settled (exec None (6 * length (all_jobs world (scrapers m)))
              (start (length (scrapers m)) (all_jobs world (scrapers m))))"
    by (rule start_settles)
  have s: "settled (exec cap (6 * length (selected_jobs world (scrapers m) sids))
              (start (length sids) (selected_jobs world (scrapers m) sids)))"
    by (rule start_settles)
  from a have 1: "fst (scrapeAll world m) \<noteq> Pending"
    by (auto simp: scrapeAll_def Let_def settled_def split: pc.splits)
  from s have 2: "fst (scrapeSelected world m sids timeout cap expiry) \<noteq> Pending"
    by (auto simp: scrapeSelected_def Let_def settled_def race_result_def
        split: pc.splits option.splits)
  from 1 2 show ?thesis by simp
qed

lemmas run_eval =
  scrapeSelected_def scrapeAll_def race_result_def Let_def selected_jobs_def all_jobs_def
  start_def resume_def enter_catch_def leave_try_def cap_reached_def exec_def
  eval_nat_numeral idle_manager_def every_def finds_def report_of_def settled_def job_name_def

subsection \<open>The claims about runs\<close>

text \<open>
  Claim C2, as the code has it.  While the flag \<open>isRunning\<close> is set, \<open>scrapeAll\<close> and
  \<open>scrapeSelected\<close> return the object with the message \<open>Scraping already in progress\<close> at once,
  leave the manager as it is and start no loop; while it is not set they never give this
  answer.  \<open>scrapeSingle\<close> never gives it and never changes the flag.
\<close>

theorem busy_calls_rejected:
  "(isRunning m \<longrightarrow>
      scrapeAll world m = (Busy ''Scraping already in progress'', m, None)
      \<and> scrapeSelected world m sids timeout cap expiry
          = (Busy ''Scraping already in progress'', m, None))
   \<and> (\<not> isRunning m \<longrightarrow>
      fst (scrapeAll world m) \<noteq> Busy message
      \<and> fst (scrapeSelected world m sids timeout cap expiry) \<noteq> Busy message)
   \<and> fst (scrapeSingle a m sid) \<noteq> Busy message
   \<and> fst (snd (scrapeSingle a m sid)) = m"
proof -
  have 1: "isRunning m \<longrightarrow>
      scrapeAll world m = (Busy ''Scraping already in progress'', m, None)
      \<and> scrapeSelected world m sids timeout cap expiry
          = (Busy ''Scraping already in progress'', m, None)"
    by (simp add: scrapeAll_def scrapeSelected_def)
  have 2: "\<not> isRunning m \<longrightarrow>
      fst (scrapeAll world m) \<noteq> Busy message
      \<and> fst (scrapeSelected world m sids timeout cap expiry) \<noteq> Busy message"
    by (auto simp: scrapeAll_def scrapeSelected_def race_result_def Let_def
        split: pc.splits option.splits)
  have 3: "fst (scrapeSingle a m sid) \<noteq> Busy message \<and> fst (snd (scrapeSingle a m sid)) = m"
    by (auto simp: scrapeSingle_def Let_def split: option.splits sum.splits)
  from 1 2 3 show ?thesis by blast
qed

theorem busy_calls_rejected_witness:
  "isRunning busy_manager
   \<and> scrapeAll (every (finds 1)) busy_manager
       = (Busy ''Scraping already in progress'', busy_manager, None)
   \<and> scrapeSelected (every (finds 1)) busy_manager [1, 4] (Some 1000) (Some 5) None
       = (Busy ''Scraping already in progress'', busy_manager, None)"
proof -
  have r: "isRunning busy_manager" by (simp add: busy_manager_def)
  with busy_calls_rejected [of busy_manager "every (finds 1)" "[1, 4]" "Some 1000" "Some 5" None]
  show ?thesis by blast
qed

text \<open>
  Claim C2 as stated fails for \<open>scrapeSingle\<close>: called while a run is in progress it scrapes
  its source and updates the source's row.
\<close>

theorem single_while_running_counterexample:
  "isRunning busy_manager
   \<and> scrapeSingle (finds 2) busy_manager 1
       = (DoneSingle ''Baldwin Times'' 2, busy_manager,
          [UpdateSourceTimestamp 1 ''last_scraped'',
           UpdateSourceTimestamp 1 ''last_successful_scrape'', UpdateSourceCount 1 2])"
  by (simp add: scrapeSingle_def busy_manager_def idle_manager_def finds_def page_scraper_def
      BaseScraper_def Let_def)

text \<open>
  Claim C3, as the code has it.  Take a world in which the updates that follow a non-empty
  scrape resolve.  Then at every \<open>await\<close> of the loop of \<open>scrapeAll\<close> and of \<open>scrapeSelected\<close>,
  and at its end, \<open>successful + failed\<close> is at most \<open>total\<close>; when \<open>scrapeAll\<close> returns its
  results the two are equal; and when \<open>scrapeSelected\<close> returns results that are not timed out
  and whose article count has not reached the limit, the two are equal.
\<close>

theorem counters_add_up:
  assumes "\<forall>i. smooth (world i)"
  shows "(\<forall>k. successful (res (exec None k (start (length (scrapers m)) (all_jobs world (scrapers m)))))
              + failed (res (exec None k (start (length (scrapers m)) (all_jobs world (scrapers m)))))
            \<le> total (res (exec None k (start (length (scrapers m)) (all_jobs world (scrapers m))))))
    \<and> (\<forall>k. successful (res (exec cap k (start (length sids) (selected_jobs world (scrapers m) sids))))
              + failed (res (exec cap k (start (length sids) (selected_jobs world (scrapers m) sids))))
            \<le> total (res (exec cap k (start (length sids) (selected_jobs world (scrapers m) sids)))))
    \<and> (\<forall>rep m' r'. scrapeAll world m = (Done rep, m', r')
          \<longrightarrow> successful rep + failed rep = total rep \<and> total rep = length (scrapers m))
    \<and> (\<forall>rep m' r'. scrapeSelected world m sids timeout cap expiry = (Done rep, m', r')
            \<and> \<not> timedOut rep \<and> \<not> cap_reached cap rep
          \<longrightarrow> successful rep + failed rep = total rep \<and> total rep = length sids)"
proof -
  let ?A = "all_jobs world (scrapers m)"
  let ?S = "selected_jobs world (scrapers m) sids"
  have smA: "\<forall>j \<in> set ?A. smooth (job_attempt j)"
    using assms all_jobs_attempt by fastforce
  have smS: "\<forall>j \<in> set ?S. smooth (job_attempt j)"
    using assms selected_jobs_attempt by fastforce
  have invA: "\<exists>ds. tally_inv None ds (exec None k (start (length (scrapers m)) ?A))
                  \<and> ds @ todo (exec None k (start (length (scrapers m)) ?A)) = ?A" for k
  proof -
    from start_tally [of None ?A] obtain d0 where
      d0: "tally_inv None d0 (start (length ?A) ?A)" "d0 @ todo (start (length ?A) ?A) = ?A"
      by blast
    from smA d0(2) have "\<forall>j \<in> set (d0 @ todo (start (length ?A) ?A)). smooth (job_attempt j)"
      by simp
    from exec_tally [OF d0(1) this, of k] d0(2) show ?thesis by simp
  qed
  have invS: "\<exists>ds. tally_inv cap ds (exec cap k (start (length sids) ?S))
                  \<and> ds @ todo (exec cap k (start (length sids) ?S)) = ?S" for k
  proof -
    from start_tally [of cap ?S] obtain d0 where
      d0: "tally_inv cap d0 (start (length ?S) ?S)" "d0 @ todo (start (length ?S) ?S) = ?S"
      by blast
    from smS d0(2) have "\<forall>j \<in> set (d0 @ todo (start (length ?S) ?S)). smooth (job_attempt j)"
      by simp
    from exec_tally [OF d0(1) this, of k] d0(2) show ?thesis by simp
  qed
  have 1: "\<forall>k. successful (res (exec None k (start (length (scrapers m)) ?A)))
              + failed (res (exec None k (start (length (scrapers m)) ?A)))
            \<le> total (res (exec None k (start (length (scrapers m)) ?A)))"
    using invA tally_le by blast
  have 2: "\<forall>k. successful (res (exec cap k (start (length sids) ?S)))
              + failed (res (exec cap k (start (length sids) ?S)))
            \<le> total (res (exec cap k (start (length sids) ?S)))"
    using invS tally_le by blast
  have 3: "\<forall>rep m' r'. scrapeAll world m = (Done rep, m', r')
          \<longrightarrow> successful rep + failed rep = total rep \<and> total rep = length (scrapers m)"
  proof (intro allI impI)
    fix rep m' r' assume a: "scrapeAll world m = (Done rep, m', r')"
    let ?r = "exec None (6 * length (scrapers m)) (start (length (scrapers m)) ?A)"
    from scrapeAll_Done [OF a] have p: "pc ?r = Returned" and rp: "rep = report_of (res ?r) False"
      by auto
    from invA [of "6 * length (scrapers m)"] obtain ds where
      t: "tally_inv None ds ?r" and e: "ds @ todo ?r = ?A" by blast
    from t p have "todo ?r = []"
      by (auto simp: tally_inv_def cap_reached_def split: if_splits)
    with t p e have "successful (res ?r) + failed (res ?r) = total (res ?r)"
      "total (res ?r) = length ?A"
      by (auto simp: tally_inv_def)
    with rp show "successful rep + failed rep = total rep \<and> total rep = length (scrapers m)"
      by simp
  qed
  have 4: "\<forall>rep m' r'. scrapeSelected world m sids timeout cap expiry = (Done rep, m', r')
            \<and> \<not> timedOut rep \<and> \<not> cap_reached cap rep
          \<longrightarrow> successful rep + failed rep = total rep \<and> total rep = length sids"
  proof (intro allI impI)
    fix rep m' r'
    assume a: "scrapeSelected world m sids timeout cap expiry = (Done rep, m', r')
            \<and> \<not> timedOut rep \<and> \<not> cap_reached cap rep"
    from a scrapeSelected_Done' obtain r where r': "r' = Some r" by blast
    from a r' scrapeSelected_Done [of world m sids timeout cap expiry rep m' r]
    obtain k where k: "r = exec cap k (start (length sids) ?S)"
      and rp: "rep = report_of (res r) (pc r \<noteq> Returned)" by blast
    from a rp have p: "pc r = Returned" and nc: "\<not> cap_reached cap (res r)" by auto
    from invS [of k] k obtain ds where t: "tally_inv cap ds r" and e: "ds @ todo r = ?S" by blast
    from t p nc have "todo r = []"
      by (auto simp: tally_inv_def split: if_splits)
    with t p e have "successful (res r) + failed (res r) = total (res r)"
      "total (res r) = length ?S"
      by (auto simp: tally_inv_def)
    with rp show "successful rep + failed rep = total rep \<and> total rep = length sids"
      by simp
  qed
  from 1 2 3 4 show ?thesis by - (intro conjI; assumption)
qed

theorem counters_add_up_witness:
  "(\<forall>i. smooth (every (finds 1) i))
   \<and> (\<exists>rep m' r'. scrapeAll (every (finds 1)) idle_manager = (Done rep, m', r')
         \<and> successful rep + failed rep = total rep \<and> total rep = 2)"
proof -
  have sm: "\<forall>i. smooth (every (finds 1) i)"
    by (simp add: every_def finds_def smooth_def)
  have "\<exists>rep m' r'. scrapeAll (every (finds 1)) idle_manager = (Done rep, m', r')"
    by (simp add: run_eval)
  then obtain rep m' r' where e: "scrapeAll (every (finds 1)) idle_manager = (Done rep, m', r')"
    by blast
  have l: "length (scrapers idle_manager) = 2" by (simp add: idle_manager_def)
  from counters_add_up [OF sm, of idle_manager] e l
  have "successful rep + failed rep = total rep \<and> total rep = 2" by metis
  with sm e show ?thesis by blast
qed

text \<open>
  Claim C3 as stated fails: a run of two sources with the limit 1, whose first source yields
  one article, completes without timing out with \<open>successful + failed = 1\<close> and \<open>total = 2\<close>.
\<close>

theorem capped_run_counterexample:
  "fst (scrapeSelected (every (finds 1)) idle_manager [1, 4] None (Some 1) None)
     = Done \<lparr>total = 2, successful = 1, failed = 0, found = 1, details = [], timedOut = False\<rparr>"
  by (simp add: run_eval)

text \<open>
  Claim C4, as the code has it.  Take a call of \<open>scrapeSelected\<close> with a limit \<open>N > 0\<close> that
  returns results not timed out, in a world in which the updates that follow a non-empty
  scrape resolve.  The list of iterations splits into those attempted and the rest:
  \<open>successful + failed\<close> is the number of those attempted, the article count is what they
  yielded, the count has reached \<open>N\<close> when there is a rest, and before the last attempted
  iteration the count was below \<open>N\<close> throughout.
\<close>

theorem cap_stops_loop:
  assumes "scrapeSelected world m sids timeout (Some N) expiry = (Done rep, m', r')"
    and "0 < N" and "\<not> timedOut rep" and "\<forall>i. smooth (world i)"
  shows "\<exists>attempted rest.
           selected_jobs world (scrapers m) sids = attempted @ rest
         \<and> successful rep + failed rep = length attempted
         \<and> found rep = yields attempted
         \<and> (rest \<noteq> [] \<longrightarrow> N \<le> int (found rep))
         \<and> (\<forall>p. strict_prefix p attempted \<longrightarrow> int (yields p) < N)"
proof -
  let ?S = "selected_jobs world (scrapers m) sids"
  let ?init = "start (length sids) ?S"
  from assms(1) scrapeSelected_Done' obtain r where r': "r' = Some r" by blast
  from assms(1) r' scrapeSelected_Done [of world m sids timeout "Some N" expiry rep m' r]
  obtain k where k: "r = exec (Some N) k ?init"
    and rp: "rep = report_of (res r) (pc r \<noteq> Returned)" by blast
  from assms(3) rp have p: "pc r = Returned" by auto
  have sm: "\<forall>j \<in> set ?S. smooth (job_attempt j)"
    using assms(4) selected_jobs_attempt by fastforce
  from start_tally [of "Some N" ?S] obtain t0 where
    t0: "tally_inv (Some N) t0 (start (length ?S) ?S)" "t0 @ todo (start (length ?S) ?S) = ?S"
    by blast
  from sm t0(2) have "\<forall>j \<in> set (t0 @ todo (start (length ?S) ?S)). smooth (job_attempt j)"
    by simp
  from exec_tally [OF t0(1) this, of k] t0(2) k obtain ds where
    t: "tally_inv (Some N) ds r" and e: "ds @ todo r = ?S" by auto
  from start_cap [OF assms(2), of "length sids" ?S] obtain c0 where
    c0: "cap_inv N c0 ?init" "c0 @ todo ?init = ?S" by blast
  from sm c0(2) have "\<forall>j \<in> set (c0 @ todo ?init). smooth (job_attempt j)" by simp
  from exec_cap [OF c0(1) assms(2) this, of k] c0(2) k obtain ds' where
    c': "cap_inv N ds' r" and e': "ds' @ todo r = ?S" by auto
  from e' e have "ds' = ds" by (rule same_rest)
  with c' have c: "cap_inv N ds r" by simp
  show ?thesis
  proof (cases "todo r")
    case Nil
    from t c p Nil have 1: "successful (res r) + failed (res r) = length ds"
      "found (res r) = yields ds" "int (yields ds) < N"
      by (auto simp: tally_inv_def cap_inv_def)
    have "\<forall>p. strict_prefix p ds \<longrightarrow> int (yields p) < N"
    proof (intro allI impI)
      fix p assume "strict_prefix p ds"
      then have "yields p \<le> yields ds" by (simp add: yields_prefix strict_prefix_def)
      with 1(3) show "int (yields p) < N" by simp
    qed
    with 1 e Nil rp have "?S = ds @ [] \<and> successful rep + failed rep = length ds
         \<and> found rep = yields ds \<and> ([] \<noteq> [] \<longrightarrow> N \<le> int (found rep))
         \<and> (\<forall>p. strict_prefix p ds \<longrightarrow> int (yields p) < N)" by simp
    then show ?thesis by blast
  next
    case (Cons j js)
    from t c p Cons have 1: "successful (res r) + failed (res r) = length (ds @ [j])"
      "found (res r) = yields (ds @ [j])" "int (yields ds) < N" "N \<le> int (found (res r))"
      by (auto simp: tally_inv_def cap_inv_def)
    have "\<forall>p. strict_prefix p (ds @ [j]) \<longrightarrow> int (yields p) < N"
    proof (intro allI impI)
      fix p assume "strict_prefix p (ds @ [j])"
      then have "prefix p ds" by (auto simp: strict_prefix_def prefix_snoc)
      then have "yields p \<le> yields ds" by (rule yields_prefix)
      with 1(3) show "int (yields p) < N" by simp
    qed
    with 1 e Cons rp have "?S = (ds @ [j]) @ js
         \<and> successful rep + failed rep = length (ds @ [j])
         \<and> found rep = yields (ds @ [j]) \<and> (js \<noteq> [] \<longrightarrow> N \<le> int (found rep))
         \<and> (\<forall>p. strict_prefix p (ds @ [j]) \<longrightarrow> int (yields p) < N)" by simp
    then show ?thesis by blast
  qed
qed

theorem cap_stops_loop_witness:
  "(0::int) < 1 \<and> (\<forall>i. smooth (every (finds 1) i))
   \<and> (\<exists>rep m' r' attempted rest.
         scrapeSelected (every (finds 1)) idle_manager [1, 4] None (Some 1) None
           = (Done rep, m', r')
         \<and> \<not> timedOut rep
         \<and> selected_jobs (every (finds 1)) (scrapers idle_manager) [1, 4] = attempted @ rest
         \<and> successful rep + failed rep = length attempted
         \<and> found rep = yields attempted
         \<and> (rest \<noteq> [] \<longrightarrow> 1 \<le> int (found rep))
         \<and> (\<forall>p. strict_prefix p attempted \<longrightarrow> int (yields p) < 1))"
proof -
  have sm: "\<forall>i. smooth (every (finds 1) i)"
    by (simp add: every_def finds_def smooth_def)
  have "\<exists>rep m' r'.
          scrapeSelected (every (finds 1)) idle_manager [1, 4] None (Some 1) None
            = (Done rep, m', r') \<and> \<not> timedOut rep"
    by (simp add: run_eval)
  then obtain rep m' r' where
    e: "scrapeSelected (every (finds 1)) idle_manager [1, 4] None (Some 1) None = (Done rep, m', r')"
    and t: "\<not> timedOut rep"
    by blast
  have p: "(0::int) < 1" by simp
  from cap_stops_loop [OF e p t sm] e t p sm show ?thesis by blast
qed

text \<open>
  Claim C4 as stated fails for the limit 0, which is no limit: the count is 1 after the first
  source, and the second source is attempted all the same.
\<close>

theorem zero_cap_counterexample:
  "fst (scrapeSelected (every (finds 1)) idle_manager [1, 4] None (Some 0) None)
     = Done \<lparr>total = 2, successful = 2, failed = 0, found = 2,
             details = [\<lparr>detail_source = ''Baldwin Times'', detail_status = ''success'',
                          detail_articles = 1, detail_duration = 5, detail_error = None\<rparr>,
                        \<lparr>detail_source = ''AL.com Baldwin'', detail_status = ''success'',
                          detail_articles = 1, detail_duration = 5, detail_error = None\<rparr>],
             timedOut = False\<rparr>"
  by (simp add: run_eval page_scraper_def feed_scraper_def BaseScraper_def)

text \<open>
  Claim C5.  Take a call of \<open>scrapeSelected\<close> that starts a run, with a truthy timeout whose
  timer fires when the loop, resumed \<open>k\<close> times, has not settled.  The call returns results
  with \<open>timedOut\<close> set; their details are those the loop has collected by then, which extend
  the details of every earlier moment; and the details are fewer than \<open>total\<close>, the number of
  ids.
\<close>

theorem timeout_keeps_partial_results:
  assumes "\<not> isRunning m" and "timeout \<noteq> None" and "timeout \<noteq> Some 0"
    and "\<not> settled (exec cap k (start (length sids) (selected_jobs world (scrapers m) sids)))"
  shows "\<exists>rep r.
           scrapeSelected world m sids timeout cap (Some k)
             = (Done rep, m\<lparr>isRunning := False\<rparr>, Some r)
         \<and> r = exec cap k (start (length sids) (selected_jobs world (scrapers m) sids))
         \<and> timedOut rep
         \<and> details rep = details (res r)
         \<and> (\<forall>l \<le> k. prefix (details (res (exec cap l
                (start (length sids) (selected_jobs world (scrapers m) sids))))) (details rep))
         \<and> total rep = length sids
         \<and> length (details rep) < total rep"
proof -
  let ?S = "selected_jobs world (scrapers m) sids"
  let ?init = "start (length sids) ?S"
  let ?r = "exec cap k ?init"
  let ?rep = "report_of (res ?r) True"
  from assms(4) have np: "pc ?r \<noteq> Returned" by (auto simp: settled_def)
  with assms(1-3) have e: "scrapeSelected world m sids timeout cap (Some k)
             = (Done ?rep, m\<lparr>isRunning := False\<rparr>, Some ?r)"
    by (simp add: scrapeSelected_def Let_def race_result_Done)
  from start_ledger [of cap ?S] obtain d0 where
    d0: "ledger_inv cap d0 (start (length ?S) ?S)" "d0 @ todo (start (length ?S) ?S) = ?S"
    by blast
  from exec_ledger [OF d0(1), of k] d0(2) obtain ds where
    l: "ledger_inv cap ds ?r" and ds: "ds @ todo ?r = ?S" by auto
  from l assms(4) have "todo ?r \<noteq> []" "total (res ?r) = length ds + length (todo ?r)"
    "length (details (res ?r)) \<le> length ds"
    by (auto simp: ledger_inv_def)
  moreover from ds have "length ds + length (todo ?r) = length sids"
    by (metis length_append length_selected_jobs)
  ultimately have lt: "length (details (res ?r)) < total (res ?r)" "total (res ?r) = length sids"
    by (cases "todo ?r"; simp)+
  have pre: "\<forall>l \<le> k. prefix (details (res (exec cap l ?init))) (details ?rep)"
    by (simp add: exec_details_mono)
  from e lt pre have "scrapeSelected world m sids timeout cap (Some k)
             = (Done ?rep, m\<lparr>isRunning := False\<rparr>, Some ?r)
         \<and> ?r = ?r \<and> timedOut ?rep \<and> details ?rep = details (res ?r)
         \<and> (\<forall>l \<le> k. prefix (details (res (exec cap l ?init))) (details ?rep))
         \<and> total ?rep = length sids \<and> length (details ?rep) < total ?rep"
    by simp
  then show ?thesis by blast
qed

theorem timeout_keeps_partial_results_witness:
  "\<not> isRunning idle_manager
   \<and> \<not> settled (exec None 8 (start (length [1, 4 :: nat])
          (selected_jobs (every (finds 1)) (scrapers idle_manager) [1, 4])))
   \<and> (\<exists>rep r. scrapeSelected (every (finds 1)) idle_manager [1, 4] (Some 1000) None (Some 8)
             = (Done rep, idle_manager\<lparr>isRunning := False\<rparr>, Some r)
         \<and> timedOut rep \<and> length (details rep) = 1 \<and> total rep = 2)"
proof -
  let ?init = "start (length [1, 4 :: nat])
          (selected_jobs (every (finds 1)) (scrapers idle_manager) [1, 4])"
  have n: "\<not> isRunning idle_manager" by (simp add: idle_manager_def)
  have s: "\<not> settled (exec None 8 ?init)" by (simp add: run_eval)
  have d: "length (details (res (exec None 8 ?init))) = 1" by (simp add: run_eval)
  from timeout_keeps_partial_results [OF n _ _ s, of "Some 1000"] obtain rep r where
    "scrapeSelected (every (finds 1)) idle_manager [1, 4] (Some 1000) None (Some 8)
             = (Done rep, idle_manager\<lparr>isRunning := False\<rparr>, Some r)"
    "r = exec None 8 ?init" "timedOut rep" "details rep = details (res r)"
    "total rep = length [1, 4 :: nat]"
    by auto
  with d n s show ?thesis by auto
qed

text \<open>
  Claim C10.  Take a call of \<open>scrapeSelected\<close> that returns results, and the ids the loop
  has gone past.  Those of them without scraper are all counted in \<open>failed\<close>, over and above
  what \<open>details\<close> accounts for; every entry of \<open>details\<close> bears the name of the scraper of one
  of these ids, and every row written to \<open>scrape_logs\<close> has one of these ids, with a scraper.
  Results that are not timed out and have not reached the limit come from a loop that went
  past all ids, and then an id without scraper makes \<open>details\<close> shorter than
  \<open>successful + failed\<close>.
\<close>

theorem unknown_ids_counted_not_listed:
  assumes "scrapeSelected world m sids timeout cap expiry = (Done rep, m', Some r)"
  shows "length (unregistered (scrapers m) (take (length sids - length (todo r)) sids))
            \<le> failed rep
    \<and> length (details rep)
        + length (unregistered (scrapers m) (take (length sids - length (todo r)) sids))
            \<le> successful rep + failed rep
    \<and> (\<forall>d \<in> set (details rep). \<exists>sid \<in> set (take (length sids - length (todo r)) sids).
          \<exists>s. map_of (scrapers m) sid = Some s \<and> detail_source d = sourceName s)
    \<and> (\<forall>q \<in> set (queries r). \<forall>sid. logged q = Some sid
          \<longrightarrow> sid \<in> set (take (length sids - length (todo r)) sids)
              \<and> map_of (scrapers m) sid \<noteq> None)
    \<and> (\<not> timedOut rep \<and> \<not> cap_reached cap rep \<longrightarrow> todo r = [])
    \<and> (\<not> timedOut rep \<and> \<not> cap_reached cap rep \<and> unregistered (scrapers m) sids \<noteq> []
          \<longrightarrow> length (details rep) < successful rep + failed rep)"
proof -
  let ?S = "selected_jobs world (scrapers m) sids"
  let ?n = "length sids - length (todo r)"
  let ?done = "take ?n sids"
  from scrapeSelected_Done [OF assms] obtain k where
    k: "r = exec cap k (start (length sids) ?S)"
    and rp: "rep = report_of (res r) (pc r \<noteq> Returned)" by blast
  from start_ledger [of cap ?S] obtain l0 where
    l0: "ledger_inv cap l0 (start (length ?S) ?S)" "l0 @ todo (start (length ?S) ?S) = ?S"
    by blast
  from start_origin [of "length ?S" ?S] obtain o0 where
    o0: "origin_inv o0 (start (length ?S) ?S)" "o0 @ todo (start (length ?S) ?S) = ?S"
    by blast
  from o0(2) l0(2) have "o0 = l0" by (rule same_rest)
  with o0(1) have "origin_inv l0 (start (length ?S) ?S)" by simp
  from exec_ledger_origin [OF l0(1) this, of k] l0(2) k obtain ds where
    l: "ledger_inv cap ds r" and or: "origin_inv ds r" and e: "ds @ todo r = ?S" by auto
  from e have "length ds = ?n"
    by (metis add_diff_cancel_right' length_append length_selected_jobs)
  with e have "ds = take ?n ?S" by (metis append_eq_conv_conj)
  then have ds: "ds = selected_jobs world (scrapers m) ?done"
    by (simp add: take_selected_jobs)
  then have un: "length (filter unknown ds) = length (unregistered (scrapers m) ?done)"
    by (simp add: unknown_selected_jobs)
  from l un rp have 1: "length (unregistered (scrapers m) ?done) \<le> failed rep"
    and 2: "length (details rep) + length (unregistered (scrapers m) ?done)
              \<le> successful rep + failed rep"
    by (simp_all add: ledger_inv_def)
  have reg: "\<exists>s. job_id j \<in> set ?done \<and> map_of (scrapers m) (job_id j) = Some s
                \<and> job_name j = sourceName s"
    if "j \<in> set ds" "\<not> unknown j" for j
  proof -
    from that(1) ds have "job_id j \<in> set ?done" "job_scraper j = map_of (scrapers m) (job_id j)"
      using selected_jobs_member by blast+
    with that(2) show ?thesis
      by (cases "job_scraper j") (auto simp: unknown_def job_name_def)
  qed
  have 3: "\<forall>d \<in> set (details rep). \<exists>sid \<in> set ?done.
          \<exists>s. map_of (scrapers m) sid = Some s \<and> detail_source d = sourceName s"
  proof
    fix d assume "d \<in> set (details rep)"
    with rp have "d \<in> set (details (res r))" by simp
    with or have "\<exists>j \<in> set ds. \<not> unknown j \<and> detail_source d = job_name j"
      unfolding origin_inv_def by blast
    then obtain j where "j \<in> set ds" "\<not> unknown j" "detail_source d = job_name j" by blast
    with reg [of j] show "\<exists>sid \<in> set ?done.
          \<exists>s. map_of (scrapers m) sid = Some s \<and> detail_source d = sourceName s"
      by auto
  qed
  have 4: "\<forall>q \<in> set (queries r). \<forall>sid. logged q = Some sid
          \<longrightarrow> sid \<in> set ?done \<and> map_of (scrapers m) sid \<noteq> None"
  proof (intro ballI allI impI)
    fix q sid assume "q \<in> set (queries r)" "logged q = Some sid"
    with or have "\<exists>j \<in> set ds. \<not> unknown j \<and> job_id j = sid"
      unfolding origin_inv_def by blast
    then obtain j where "j \<in> set ds" "\<not> unknown j" "job_id j = sid" by blast
    with reg [of j] show "sid \<in> set ?done \<and> map_of (scrapers m) sid \<noteq> None" by auto
  qed
  have 5: "\<not> timedOut rep \<and> \<not> cap_reached cap rep \<longrightarrow> todo r = []"
    using l rp by (auto simp: ledger_inv_def)
  have 6: "\<not> timedOut rep \<and> \<not> cap_reached cap rep \<and> unregistered (scrapers m) sids \<noteq> []
          \<longrightarrow> length (details rep) < successful rep + failed rep"
  proof
    assume a: "\<not> timedOut rep \<and> \<not> cap_reached cap rep \<and> unregistered (scrapers m) sids \<noteq> []"
    with 5 have "?done = sids" by simp
    with a have "unregistered (scrapers m) ?done \<noteq> []" by simp
    then have "0 < length (unregistered (scrapers m) ?done)" by (rule length_greater_0_conv [THEN iffD2])
    with 2 show "length (details rep) < successful rep + failed rep" by linarith
  qed
  from 1 2 3 4 5 6 show ?thesis by - (intro conjI; assumption)
qed

theorem unknown_ids_counted_not_listed_witness:
  "\<exists>rep m' r. scrapeSelected (every (finds 1)) idle_manager [1, 9, 4] None None None
        = (Done rep, m', Some r)
     \<and> \<not> timedOut rep \<and> \<not> cap_reached None rep
     \<and> unregistered (scrapers idle_manager) [1, 9, 4] = [9]
     \<and> 1 \<le> failed rep
     \<and> length (details rep) < successful rep + failed rep"
proof -
  have "\<exists>rep m' r.
          scrapeSelected (every (finds 1)) idle_manager [1, 9, 4] None None None
            = (Done rep, m', Some r) \<and> \<not> timedOut rep"
    by (simp add: run_eval)
  then obtain rep m' r where
    e: "scrapeSelected (every (finds 1)) idle_manager [1, 9, 4] None None None
          = (Done rep, m', Some r)"
    and t: "\<not> timedOut rep"
    by blast
  have c: "\<not> cap_reached None rep" by (simp add: cap_reached_def)
  have u: "unregistered (scrapers idle_manager) [1, 9, 4] = [9]"
    by (simp add: unregistered_def idle_manager_def)
  note T = unknown_ids_counted_not_listed [OF e]
  from T t c have z: "todo r = []" by blast
  from T t c u have 1: "length (details rep) < successful rep + failed rep" by simp
  from T z u have 2: "1 \<le> failed rep" by simp
  from e t c u 1 2 show ?thesis by blast
qed


end
